theory Spec2Isabelle
  imports Complex_Main "HOL-Library.Multiset"
begin

section \<open>String operations of the Python library used by send_in_chunks.py\<close>

text \<open>
  Strings are lists of characters. Only ASCII characters are named by the program:
  the space, the slash and the newline.
\<close>

definition NL :: char where
  "NL = CHR 0x0A"

definition TAB :: char where
  "TAB = CHR 0x09"

text \<open>\<^verbatim>\<open>s.rstrip(chars)\<close>: drops every trailing character of \<open>s\<close> that occurs in \<open>chars\<close>.\<close>

definition rstrip :: "string \<Rightarrow> string \<Rightarrow> string" where
  "rstrip chars s = rev (dropWhile (\<lambda>c. c \<in> set chars) (rev s))"

text \<open>
  \<^verbatim>\<open>s.rsplit(sep, 1)\<close> for a separator of one character: at most one split, made at the
  last occurrence of the separator; without an occurrence the result is the one-element
  list \<open>[s]\<close>.
\<close>

definition rsplit1 :: "char \<Rightarrow> string \<Rightarrow> string list" where
  "rsplit1 sep s =
     (if sep \<in> set s
      then [rev (tl (dropWhile (\<lambda>c. c \<noteq> sep) (rev s))), rev (takeWhile (\<lambda>c. c \<noteq> sep) (rev s))]
      else [s])"

text \<open>\<^verbatim>\<open>sep.join(xs)\<close>.\<close>

fun join :: "string \<Rightarrow> string list \<Rightarrow> string" where
  "join sep [] = []"
| "join sep [x] = x"
| "join sep (x # y # ys) = x @ sep @ join sep (y # ys)"

section \<open>Exceptions\<close>

datatype exn = ValueError string

section \<open>get_endpoint\<close>

definition get_endpoint :: "string \<Rightarrow> string \<Rightarrow> exn + string" where
  "get_endpoint host backend =
     (let host = rstrip ''/'' host in
      if backend = ''questdb'' then Inr (host @ ''/write'')
      else if backend = ''influxdb'' then Inr (host @ ''/api/v3/write_lp?db=sensors&precision=auto'')
      else Inl (ValueError (''Unsupported backend: '' @ backend)))"

section \<open>The world outside the program\<close>

text \<open>
  The program prints to two streams, reads one file and issues HTTP requests. The
  console is a list of messages (the formatted text of a message is not modelled, only
  what it reports), the network is a function giving the outcome of a POST request,
  and the readings of the clock are inputs: the duration measured around a request
  comes with the outcome of the request, the wall time of the sending phase is a
  parameter of \<open>main\<close>. Durations are real numbers, not floating-point numbers.
\<close>

datatype stream = Stdout | Stderr

datatype message =
    Dividing
  | SentChunk nat int real
  | ErrorText string
  | ExceptionSending string real
  | ErrorReadingFile string
  | TotalRows nat
  | TotalRequestTime real
  | TotalWallTime real
  | InvalidChoice string

record response =
  status_code :: int
  ok :: bool
  resp_text :: string

text \<open>\<^verbatim>\<open>requests.post\<close> returns a response or raises an exception with a message.\<close>

datatype outcome = Responded response | Raised string

text \<open>
  The outcome of a request and the time it takes may depend on the requests made
  before it, on the URL and on the body.
\<close>

type_synonym network = "(string \<times> string) list \<Rightarrow> string \<Rightarrow> string \<Rightarrow> outcome \<times> real"

text \<open>
  Opening and reading the file at a path: the lines as the iteration over the file
  yields them (each with its line terminator), or the message of the exception.
\<close>

type_synonym filesystem = "string \<Rightarrow> string + string list"

record world =
  requests :: "(string \<times> string) list"
  console :: "(stream \<times> message) list"

definition print :: "stream \<Rightarrow> message \<Rightarrow> world \<Rightarrow> world" where
  "print s m w = w\<lparr>console := console w @ [(s, m)]\<rparr>"

definition post :: "network \<Rightarrow> string \<Rightarrow> string \<Rightarrow> world \<Rightarrow> (outcome \<times> real) \<times> world" where
  "post net url data w = (net (requests w) url data, w\<lparr>requests := requests w @ [(url, data)]\<rparr>)"

section \<open>send_chunk\<close>

text \<open>
  The result is the pair \<open>(number_of_rows, elapsed_time)\<close>; an exception that
  \<open>send_chunk\<close> does not catch is the \<open>Inl\<close> case. \<open>get_endpoint\<close> is called before
  the \<^verbatim>\<open>try\<close>, so its exception leaves \<open>send_chunk\<close>.
\<close>

definition send_chunk ::
  "network \<Rightarrow> string list \<Rightarrow> string \<Rightarrow> string \<Rightarrow> world \<Rightarrow> (exn + nat \<times> real) \<times> world" where
  "send_chunk net chunk_lines host backend w =
     (case get_endpoint host backend of
        Inl e \<Rightarrow> (Inl e, w)
      | Inr url \<Rightarrow>
          (let data = join [NL] chunk_lines @ [NL];
               ((result, elapsed), w) = post net url data w
           in (case result of
                 Responded response \<Rightarrow>
                   (let w = print Stdout (SentChunk (length chunk_lines) (status_code response) elapsed) w;
                        w = (if \<not> ok response then print Stderr (ErrorText (resp_text response)) w else w)
                    in (Inr (length chunk_lines, elapsed), w))
               | Raised e \<Rightarrow>
                   (let w = print Stderr (ExceptionSending e elapsed) w
                    in (Inr (length chunk_lines, elapsed), w)))))"

definition send_chunk_wrapper ::
  "network \<Rightarrow> string list \<times> string \<times> string \<Rightarrow> world \<Rightarrow> (exn + nat \<times> real) \<times> world" where
  "send_chunk_wrapper net args w =
     (let (chunk_lines, host, backend) = args in send_chunk net chunk_lines host backend w)"

section \<open>Batches of a list\<close>

text \<open>
  Cutting a list into consecutive pieces of \<open>n\<close> elements, the last one shorter when
  the length is not a multiple of \<open>n\<close>. The pool cuts the list of its tasks this way
  (\<^verbatim>\<open>Pool._get_tasks\<close>), and the loop of \<open>main\<close> is compared with this function.
\<close>

fun split_every :: "nat \<Rightarrow> 'a list \<Rightarrow> 'a list list" where
  "split_every n xs = (if n = 0 \<or> xs = [] then [] else take n xs # split_every n (drop n xs))"

declare split_every.simps [simp del]

section \<open>The steps of one call of send_chunk_wrapper\<close>

text \<open>
  Several worker processes run calls of \<open>send_chunk_wrapper\<close> at the same time, so
  that what one call does to the world is interleaved with what the others do. A
  call acts on the world one action at a time: the request, then each message it
  prints. After the request, what is left of the call is its result and the messages
  still to print; \<open>chunk_report\<close> gives the messages \<open>send_chunk\<close> prints after a request
  on \<open>n\<close> lines, from the outcome of the request.
\<close>

type_synonym chunk_args = "string list \<times> string \<times> string"

type_synonym send_result = "nat \<times> real"

definition chunk_report :: "nat \<Rightarrow> outcome \<times> real \<Rightarrow> (stream \<times> message) list" where
  "chunk_report n r =
     (case r of
        (Responded response, elapsed) \<Rightarrow>
          (Stdout, SentChunk n (status_code response) elapsed) #
          (if ok response then [] else [(Stderr, ErrorText (resp_text response))])
      | (Raised e, elapsed) \<Rightarrow> [(Stderr, ExceptionSending e elapsed)])"

datatype call = Called chunk_args | Posted send_result "(stream \<times> message) list"

datatype progress = Running call | Returns send_result | Raises exn

fun call_step :: "network \<Rightarrow> call \<Rightarrow> world \<Rightarrow> progress \<times> world" where
  "call_step net (Called args) w =
     (let (chunk_lines, host, backend) = args in
      (case get_endpoint host backend of
         Inl e \<Rightarrow> (Raises e, w)
       | Inr url \<Rightarrow>
           (let data = join [NL] chunk_lines @ [NL];
                (r, w) = post net url data w
            in (Running (Posted (length chunk_lines, snd r) (chunk_report (length chunk_lines) r)), w))))"
| "call_step net (Posted result (m # ms)) w =
     (Running (Posted result ms), w\<lparr>console := console w @ [m]\<rparr>)"
| "call_step net (Posted result []) w = (Returns result, w)"

text \<open>
  A call run alone, for at most \<open>n\<close> steps. Four steps are enough for every call; that
  the outcome is the one of \<open>send_chunk_wrapper\<close> is proved below.
\<close>

fun call_run :: "nat \<Rightarrow> network \<Rightarrow> call \<Rightarrow> world \<Rightarrow> progress \<times> world" where
  "call_run 0 net c w = (Running c, w)"
| "call_run (Suc n) net c w =
     (case call_step net c w of
        (Running c', w') \<Rightarrow> call_run n net c' w'
      | (Returns r, w') \<Rightarrow> (Returns r, w')
      | (Raises e, w') \<Rightarrow> (Raises e, w'))"

section \<open>The worker pool\<close>

text \<open>
  \<^verbatim>\<open>Pool(processes).map(send_chunk_wrapper, chunks_args)\<close>. The pool refuses a number
  of processes below one. \<open>map\<close> cuts the list of tasks into batches (of
  \<open>ceil (len / (4 * processes))\<close> tasks) and puts the numbered batches into a queue. A
  worker that is idle takes the first batch of the queue and runs its tasks one after
  the other (\<^verbatim>\<open>mapstar\<close>); when a task raises, the rest of the batch is not run and the
  exception is the outcome of the batch. \<open>map\<close> waits until every batch has an outcome;
  then it raises the first exception that arrived, if there is one, and otherwise
  returns the results of the batches in the order of the batches.

  A worker is idle, or busy with a batch: the number of the batch, the call it is
  running, the tasks of the batch still to run and the results of the batch so far.
\<close>

datatype worker = Idle | Busy nat call "chunk_args list" "send_result list"

record pool =
  inqueue :: "(nat \<times> chunk_args list) list"
  procs :: "worker list"
  outqueue :: "(nat \<times> (exn + send_result list)) list"

text \<open>
  One step of the worker \<open>i\<close>: an idle worker takes the first batch of the queue, a busy
  one makes one step of its call. A number that is not the number of a worker does
  nothing.
\<close>

definition worker_step :: "network \<Rightarrow> nat \<Rightarrow> pool \<times> world \<Rightarrow> pool \<times> world" where
  "worker_step net i sw =
     (let (st, w) = sw in
      if length (procs st) \<le> i then (st, w)
      else
        (case procs st ! i of
           Idle \<Rightarrow>
             (case inqueue st of
                [] \<Rightarrow> (st, w)
              | (k, []) # q \<Rightarrow> (st\<lparr>inqueue := q, outqueue := outqueue st @ [(k, Inr [])]\<rparr>, w)
              | (k, c # cs) # q \<Rightarrow>
                  (st\<lparr>inqueue := q, procs := (procs st)[i := Busy k (Called c) cs []]\<rparr>, w))
         | Busy k t rest acc \<Rightarrow>
             (case call_step net t w of
                (Running t', w') \<Rightarrow> (st\<lparr>procs := (procs st)[i := Busy k t' rest acc]\<rparr>, w')
              | (Returns r, w') \<Rightarrow>
                  (case rest of
                     [] \<Rightarrow>
                       (st\<lparr>procs := (procs st)[i := Idle],
                           outqueue := outqueue st @ [(k, Inr (acc @ [r]))]\<rparr>, w')
                   | c # cs \<Rightarrow>
                       (st\<lparr>procs := (procs st)[i := Busy k (Called c) cs (acc @ [r])]\<rparr>, w'))
              | (Raises e, w') \<Rightarrow>
                  (st\<lparr>procs := (procs st)[i := Idle], outqueue := outqueue st @ [(k, Inl e)]\<rparr>, w'))))"

text \<open>The pool has nothing left to do: the queue is empty and every worker is idle.\<close>

definition finished :: "pool \<Rightarrow> bool" where
  "finished st = (inqueue st = [] \<and> list_all (\<lambda>p. p = Idle) (procs st))"

text \<open>
  A bound on the number of steps the pool can still make: four for a call that has not
  started (the request, at most two messages, the return), and one for taking a batch.
\<close>

fun call_work :: "call \<Rightarrow> nat" where
  "call_work (Called args) = 4"
| "call_work (Posted result ms) = Suc (length ms)"

fun worker_work :: "worker \<Rightarrow> nat" where
  "worker_work Idle = 0"
| "worker_work (Busy k t rest acc) = call_work t + 4 * length rest"

definition work :: "pool \<Rightarrow> nat" where
  "work st = sum_list (map (\<lambda>kb. Suc (4 * length (snd kb))) (inqueue st))
     + sum_list (map worker_work (procs st))"

text \<open>
  The value of \<open>map\<close> from the outcomes of the batches, in the order they arrived
  (\<^verbatim>\<open>MapResult._set\<close>): the first exception, or the results of the batches \<open>0\<close> to
  \<open>n - 1\<close>.
\<close>

fun first_failure :: "(nat \<times> (exn + send_result list)) list \<Rightarrow> exn option" where
  "first_failure [] = None"
| "first_failure ((k, Inl e) # outs) = Some e"
| "first_failure ((k, Inr rs) # outs) = first_failure outs"

definition batch_value :: "(nat \<times> (exn + send_result list)) list \<Rightarrow> nat \<Rightarrow> send_result list" where
  "batch_value outs k = (case map_of outs k of Some (Inr rs) \<Rightarrow> rs | _ \<Rightarrow> [])"

definition map_result :: "nat \<Rightarrow> (nat \<times> (exn + send_result list)) list \<Rightarrow> exn + send_result list" where
  "map_result n outs =
     (case first_failure outs of
        Some e \<Rightarrow> Inl e
      | None \<Rightarrow> Inr (concat (map (batch_value outs) [0..<n])))"

text \<open>The size of the batches (\<^verbatim>\<open>Pool._map_async\<close>).\<close>

definition map_chunksize :: "nat \<Rightarrow> nat \<Rightarrow> nat" where
  "map_chunksize len n =
     (if len = 0 then 0
      else if len mod (n * 4) = 0 then len div (n * 4)
      else len div (n * 4) + 1)"

text \<open>
  Which worker moves next is not decided by the program: the schedule \<open>sched\<close>, the
  list of the workers in the order of their steps, is an input of the model. With one
  worker there is one schedule only. After the steps of \<open>sched\<close> the workers take
  turns until the pool has finished (in a pool that has finished, a step changes
  nothing): \<open>map\<close> returns when every batch has an outcome, and not before. So every
  run of the real pool is the run of the model for the schedule of that run.
\<close>

definition pool_map ::
  "int \<Rightarrow> nat list \<Rightarrow> network \<Rightarrow> chunk_args list \<Rightarrow> world \<Rightarrow> (exn + send_result list) \<times> world" where
  "pool_map processes sched net xs w =
     (if processes < 1 then (Inl (ValueError ''Number of processes must be at least 1''), w)
      else
        (let n = nat processes;
             batches = split_every (map_chunksize (length xs) n) xs;
             st = \<lparr>inqueue = enumerate 0 batches, procs = replicate n Idle, outqueue = []\<rparr>;
             (st, w) = fold (worker_step net) (sched @ concat (replicate (work st) [0..<n])) (st, w)
         in (map_result (length batches) (outqueue st), w)))"

section \<open>main\<close>

text \<open>
  The parsed command line. \<open>chunk_size\<close> and \<open>workers\<close> are already integers
  (\<^verbatim>\<open>type=int\<close>); the conversion of the command line's words is not modelled.
\<close>

record args =
  host :: string
  file_name :: string
  chunk_size :: int
  workers :: int
  backend :: string
  omit_timestamp :: bool

text \<open>Lines 73 to 75: the removal of the last token of a line.\<close>

definition strip_timestamp :: "string \<Rightarrow> string" where
  "strip_timestamp line =
     (let parts = rsplit1 (CHR '' '') line in
      if length parts = 2 then parts ! 0 else line)"

text \<open>Lines 70 to 75: what is done to a line before it is appended to the chunk.\<close>

definition prepare_line :: "args \<Rightarrow> string \<Rightarrow> string" where
  "prepare_line args line =
     (let line = rstrip [NL] line in
      if omit_timestamp args then strip_timestamp line else line)"

text \<open>
  The loop of lines 69 to 81 over the lines \<open>f\<close> of the file, with the variables
  \<open>chunk\<close> and \<open>chunks_args\<close>; the first equation is what follows the loop.
\<close>

fun chunk_loop ::
  "args \<Rightarrow> string list \<Rightarrow> string list \<Rightarrow> (string list \<times> string \<times> string) list
     \<Rightarrow> (string list \<times> string \<times> string) list" where
  "chunk_loop args [] chunk chunks_args =
     (if chunk \<noteq> [] then chunks_args @ [(chunk, host args, backend args)] else chunks_args)"
| "chunk_loop args (line # f) chunk chunks_args =
     (let line = prepare_line args line;
          chunk = chunk @ [line]
      in if int (length chunk) = chunk_size args
         then chunk_loop args f [] (chunks_args @ [(chunk, host args, backend args)])
         else chunk_loop args f chunk chunks_args)"

definition read_chunks :: "filesystem \<Rightarrow> args \<Rightarrow> string + (string list \<times> string \<times> string) list" where
  "read_chunks fs args =
     (case fs (file_name args) of
        Inl e \<Rightarrow> Inl e
      | Inr f \<Rightarrow> Inr (chunk_loop args f [] []))"

text \<open>The loop of lines 96 to 98.\<close>

fun aggregate :: "(nat \<times> real) list \<Rightarrow> nat \<Rightarrow> real \<Rightarrow> nat \<times> real" where
  "aggregate [] total_rows total_request_time = (total_rows, total_request_time)"
| "aggregate ((rows, req_time) # results) total_rows total_request_time =
     aggregate results (total_rows + rows) (total_request_time + req_time)"

text \<open>
  How a run ends: \<open>main\<close> returns, the process exits with a status (\<^verbatim>\<open>sys.exit\<close>, or
  the argument parser's exit with status 2), or an exception is not caught.
\<close>

datatype ending = Returned | Exit int | Uncaught exn

text \<open>
  The argument parser accepts for \<^verbatim>\<open>--backend\<close> only one of its \<^verbatim>\<open>choices\<close>: with
  another word it prints a usage error to the standard error and exits with status 2.
  The schedule \<open>sched\<close> of the workers of the pool is an input of the run, like the
  network and the file system.
\<close>

definition main ::
  "filesystem \<Rightarrow> network \<Rightarrow> real \<Rightarrow> nat list \<Rightarrow> args \<Rightarrow> world \<Rightarrow> ending \<times> world" where
  "main fs net wall_time sched args w =
     (if backend args \<notin> set [''questdb'', ''influxdb'']
      then (Exit 2, print Stderr (InvalidChoice (backend args)) w)
      else
        (let w = print Stdout Dividing w in
         (case read_chunks fs args of
            Inl e \<Rightarrow> (Exit 1, print Stderr (ErrorReadingFile e) w)
          | Inr chunks_args \<Rightarrow>
              (case pool_map (workers args) sched net chunks_args w of
                 (Inl e, w) \<Rightarrow> (Uncaught e, w)
               | (Inr results, w) \<Rightarrow>
                   (let (total_rows, total_request_time) = aggregate results 0 0;
                        w = print Stdout (TotalRows total_rows) w;
                        w = print Stdout (TotalRequestTime total_request_time) w;
                        w = print Stdout (TotalWallTime wall_time) w
                    in (Returned, w))))))"

section \<open>Example inputs\<close>

text \<open>A run on a file of ten lines with chunks of three lines.\<close>

definition demo_args :: args where
  "demo_args = \<lparr>host = ''http://h:9'', file_name = ''data.lp'', chunk_size = 3, workers = 1,
     backend = ''questdb'', omit_timestamp = False\<rparr>"

definition ten_lines :: "string list" where
  "ten_lines = map (\<lambda>l. l @ [NL]) [''r0 1'', ''r1 1'', ''r2 1'', ''r3 1'', ''r4 1'', ''r5 1'', ''r6 1'', ''r7 1'', ''r8 1'', ''r9 1'']"

section \<open>The transformation of a line as the specification words it\<close>

text \<open>
  The specification speaks of whitespace-delimited tokens. The whitespace characters
  of ASCII are the space, the tab, the newline, the vertical tab, the form feed and
  the carriage return.
\<close>

definition is_whitespace :: "char \<Rightarrow> bool" where
  "is_whitespace c = (c \<in> set [CHR '' '', TAB, NL, CHR 0x0B, CHR 0x0C, CHR 0x0D])"

text \<open>
  "Removing the final whitespace-delimited token and the whitespace immediately
  preceding it; if the line contains no whitespace, leave it unchanged", in the
  specification's words: the characters after the last whitespace character are
  dropped, then the whitespace before them.
\<close>

definition remove_last_token_spec :: "string \<Rightarrow> string" where
  "remove_last_token_spec line =
     (if list_ex is_whitespace line
      then rev (dropWhile is_whitespace (dropWhile (\<lambda>c. \<not> is_whitespace c) (rev line)))
      else line)"

section \<open>Descriptions used in the statements\<close>

text \<open>The request that \<open>send_chunk_wrapper\<close> issues for a chunk: the URL and the body.\<close>

definition request_of :: "string list \<times> string \<times> string \<Rightarrow> string \<times> string" where
  "request_of args =
     (let (chunk_lines, host, backend) = args
      in (projr (get_endpoint host backend), join [NL] chunk_lines @ [NL]))"

text \<open>The two backends that \<open>get_endpoint\<close> knows.\<close>

definition known_backend :: "string \<Rightarrow> bool" where
  "known_backend b = (b = ''questdb'' \<or> b = ''influxdb'')"

text \<open>
  Example surroundings: a world where nothing has happened yet, a network that
  refuses every connection, one that accepts every request, one that answers every
  request with status 400, a file system with the ten-line file, and two chunks.
\<close>

definition empty_world :: world where
  "empty_world = \<lparr>requests = [], console = []\<rparr>"

definition failing_net :: network where
  "failing_net history url data = (Raised ''Connection refused'', 1)"

definition accepting_net :: network where
  "accepting_net history url data = (Responded \<lparr>status_code = 204, ok = True, resp_text = []\<rparr>, 1)"

definition rejecting_net :: network where
  "rejecting_net history url data =
     (Responded \<lparr>status_code = 400, ok = False, resp_text = ''parse error''\<rparr>, 1)"

definition demo_fs :: filesystem where
  "demo_fs path = (if path = ''data.lp'' then Inr ten_lines else Inl ''No such file or directory'')"


section \<open>What the pool has done and has still to do\<close>

text \<open>
  The chunks whose request has not been issued yet: the one of a call that has not
  made its request, the tasks a worker has still to run, and the batches in the queue.
\<close>

fun call_todo :: "call \<Rightarrow> chunk_args list" where
  "call_todo (Called args) = [args]"
| "call_todo (Posted result ms) = []"

fun worker_todo :: "worker \<Rightarrow> chunk_args list" where
  "worker_todo Idle = []"
| "worker_todo (Busy k t rest acc) = call_todo t @ rest"

definition todo :: "pool \<Rightarrow> chunk_args multiset" where
  "todo st = sum_list (map (\<lambda>p. mset (worker_todo p)) (procs st))
     + sum_list (map (\<lambda>kb. mset (snd kb)) (inqueue st))"

text \<open>The batch a worker is busy with.\<close>

fun batch_of :: "worker \<Rightarrow> nat option" where
  "batch_of Idle = None"
| "batch_of (Busy k t rest acc) = Some k"

text \<open>
  A busy worker is at some position of its batch \<open>B ! k\<close>: it has one result for every
  task before that position, each with the number of lines of its chunk, the tasks
  after the position are still to run, and its call is the call on the chunk at the
  position.
\<close>

fun call_ok :: "chunk_args \<Rightarrow> call \<Rightarrow> bool" where
  "call_ok cur (Called args) = (cur = args)"
| "call_ok cur (Posted result ms) = (fst result = length (fst cur))"

fun worker_ok :: "chunk_args list list \<Rightarrow> worker \<Rightarrow> bool" where
  "worker_ok B Idle = True"
| "worker_ok B (Busy k t rest acc) =
     (k < length B \<and> length acc < length (B ! k) \<and> rest = drop (Suc (length acc)) (B ! k)
      \<and> map fst acc = map (\<lambda>c. length (fst c)) (take (length acc) (B ! k))
      \<and> call_ok (B ! k ! length acc) t)"

text \<open>
  The invariants of a run of the pool on the tasks \<open>cs\<close>, cut into the batches \<open>B\<close>, from
  the world \<open>w0\<close>: the requests issued so far are those of some chunks \<open>posted\<close>, and
  these together with the chunks still to do are the chunks \<open>cs\<close>; the queue holds
  batches of \<open>B\<close> under their numbers; every worker is at a position of its batch; every
  outcome is the list of the results of its batch; every batch is in the queue, with a
  worker or has an outcome. With one worker, the requests are issued in the order of
  \<open>cs\<close>.
\<close>

definition inv_world :: "chunk_args list \<Rightarrow> world \<Rightarrow> pool \<times> world \<Rightarrow> bool" where
  "inv_world cs w0 sw =
     (\<exists>posted ms. requests (snd sw) = requests w0 @ map request_of posted
        \<and> console (snd sw) = console w0 @ ms
        \<and> mset posted + todo (fst sw) = mset cs)"

definition inv_queue :: "chunk_args list list \<Rightarrow> pool \<Rightarrow> bool" where
  "inv_queue B st = (\<forall>kb\<in>set (inqueue st). fst kb < length B \<and> snd kb = B ! fst kb)"

definition inv_workers :: "chunk_args list list \<Rightarrow> pool \<Rightarrow> bool" where
  "inv_workers B st = (\<forall>j<length (procs st). worker_ok B (procs st ! j))"

definition inv_out :: "chunk_args list list \<Rightarrow> pool \<Rightarrow> bool" where
  "inv_out B st =
     (\<forall>ko\<in>set (outqueue st). fst ko < length B
        \<and> (\<exists>rs. snd ko = Inr rs \<and> map fst rs = map (\<lambda>c. length (fst c)) (B ! fst ko)))"

definition inv_cover :: "chunk_args list list \<Rightarrow> pool \<Rightarrow> bool" where
  "inv_cover B st =
     (\<forall>k<length B. k \<in> fst ` set (inqueue st)
        \<or> (\<exists>j<length (procs st). batch_of (procs st ! j) = Some k)
        \<or> k \<in> fst ` set (outqueue st))"

definition known_batches :: "chunk_args list list \<Rightarrow> bool" where
  "known_batches B = (\<forall>b\<in>set B. \<forall>c\<in>set b. known_backend (snd (snd c)))"

definition pool_inv :: "chunk_args list list \<Rightarrow> chunk_args list \<Rightarrow> world \<Rightarrow> pool \<times> world \<Rightarrow> bool" where
  "pool_inv B cs w0 sw =
     (inv_world cs w0 sw \<and> inv_queue B (fst sw) \<and> inv_workers B (fst sw) \<and> inv_out B (fst sw)
      \<and> inv_cover B (fst sw))"

definition inv_order :: "chunk_args list \<Rightarrow> world \<Rightarrow> pool \<times> world \<Rightarrow> bool" where
  "inv_order cs w0 sw =
     (\<exists>posted. requests (snd sw) = requests w0 @ map request_of posted
        \<and> posted @ worker_todo (procs (fst sw) ! 0) @ concat (map snd (inqueue (fst sw))) = cs)"

section \<open>Facts about the string operations\<close>

lemma rstrip_decompose:
  "\<exists>k. s = rstrip [c] s @ replicate k c"
proof -
  have "rev s = takeWhile (\<lambda>x. x = c) (rev s) @ dropWhile (\<lambda>x. x = c) (rev s)"
    by simp
  moreover have "takeWhile (\<lambda>x. x = c) (rev s) = replicate (length (takeWhile (\<lambda>x. x = c) (rev s))) c"
    by (rule replicate_length_same [symmetric]) (auto dest: set_takeWhileD)
  ultimately have "rev s = replicate (length (takeWhile (\<lambda>x. x = c) (rev s))) c @ rev (rstrip [c] s)"
    by (simp add: rstrip_def)
  then have "rev (rev s) = rev (replicate (length (takeWhile (\<lambda>x. x = c) (rev s))) c @ rev (rstrip [c] s))"
    by simp
  then have "s = rstrip [c] s @ replicate (length (takeWhile (\<lambda>x. x = c) (rev s))) c"
    by simp
  then show ?thesis ..
qed

lemma rstrip_no_trailing:
  "rstrip [c] s = [] \<or> last (rstrip [c] s) \<noteq> c"
proof (cases "dropWhile (\<lambda>x. x = c) (rev s)")
  case Nil
  then show ?thesis by (simp add: rstrip_def)
next
  case (Cons y ys)
  then have "y \<noteq> c"
    using hd_dropWhile [of "\<lambda>x. x = c" "rev s"] by auto
  with Cons show ?thesis by (simp add: rstrip_def)
qed

lemma rsplit1_none: "sep \<notin> set s \<Longrightarrow> rsplit1 sep s = [s]"
  by (simp add: rsplit1_def)

lemma rsplit1_last: "sep \<notin> set tok \<Longrightarrow> rsplit1 sep (pre @ sep # tok) = [pre, tok]"
proof -
  assume a: "sep \<notin> set tok"
  have r: "rev (pre @ sep # tok) = rev tok @ sep # rev pre" by simp
  from a have t: "takeWhile (\<lambda>c. c \<noteq> sep) (rev tok @ sep # rev pre) = rev tok"
    by (subst takeWhile_append2) auto
  from a have d: "dropWhile (\<lambda>c. c \<noteq> sep) (rev tok @ sep # rev pre) = sep # rev pre"
    by (subst dropWhile_append2) auto
  show ?thesis unfolding rsplit1_def r t d by simp
qed

lemma split_last_occurrence:
  "sep \<in> set s \<Longrightarrow> \<exists>pre tok. s = pre @ sep # tok \<and> sep \<notin> set tok"
  using split_list_last [of sep s] by blast

lemma strip_timestamp_none: "CHR '' '' \<notin> set line \<Longrightarrow> strip_timestamp line = line"
  by (simp add: strip_timestamp_def rsplit1_none)

lemma strip_timestamp_last:
  "CHR '' '' \<notin> set tok \<Longrightarrow> strip_timestamp (pre @ CHR '' '' # tok) = pre"
  by (simp add: strip_timestamp_def rsplit1_last)

lemma join_terminated: "xs \<noteq> [] \<Longrightarrow> join sep xs @ sep = concat (map (\<lambda>x. x @ sep) xs)"
  by (induction sep xs rule: join.induct) simp_all

lemma split_every_concat: "0 < n \<Longrightarrow> concat (split_every n xs) = xs"
  by (induction n xs rule: split_every.induct) (subst split_every.simps, simp)

lemma split_every_length: "0 < n \<Longrightarrow> length (split_every n xs) = (length xs + n - 1) div n"
proof (induction n xs rule: split_every.induct)
  case (1 n xs)
  show ?case
  proof (cases "xs = []")
    case True
    with 1(2) show ?thesis by (subst split_every.simps) simp
  next
    case False
    with 1 have ih: "length (split_every n (drop n xs)) = (length xs - n + n - 1) div n" by simp
    show ?thesis
    proof (cases "length xs \<le> n")
      case True
      with False 1(2) have "(length xs + n - 1) div n = 1"
        by (cases xs) (simp_all add: div_eq_dividend_iff Suc_le_eq le_div_geq)
      with True False 1(2) ih show ?thesis by (subst split_every.simps) simp
    next
      case F: False
      then have "(length xs + n - 1) div n = Suc ((length xs - n + n - 1) div n)"
        using 1(2) by (simp add: le_div_geq)
      with False 1(2) ih show ?thesis by (subst split_every.simps) simp
    qed
  qed
qed


lemma split_every_single: "0 < n \<Longrightarrow> xs \<noteq> [] \<Longrightarrow> length xs \<le> n \<Longrightarrow> split_every n xs = [xs]"
  by (subst split_every.simps, subst split_every.simps) simp

lemma split_every_step:
  "0 < n \<Longrightarrow> length c = n \<Longrightarrow> split_every n (c @ xs) = c # split_every n xs"
  by (subst split_every.simps) auto

lemma split_every_Nil: "split_every n [] = []"
  by (subst split_every.simps) simp

lemma split_every_butlast:
  "0 < n \<Longrightarrow> c \<in> set (butlast (split_every n xs)) \<Longrightarrow> length c = n"
proof (induction n xs arbitrary: c rule: split_every.induct)
  case (1 n xs)
  show ?case
  proof (cases "length xs \<le> n")
    case True
    then have "split_every n xs = [] \<or> split_every n xs = [xs]"
      using 1(2) split_every_single [of n xs] split_every_Nil [of n] by (cases "xs = []") auto
    with 1(3) show ?thesis by auto
  next
    case False
    then have ne: "xs \<noteq> []" by auto
    from False have dne: "drop n xs \<noteq> []" by simp
    then have "split_every n (drop n xs) \<noteq> []"
      using 1(2) by (subst split_every.simps) simp
    moreover have "split_every n xs = take n xs # split_every n (drop n xs)"
      using ne 1(2) by (subst split_every.simps) simp
    ultimately have "c = take n xs \<or> c \<in> set (butlast (split_every n (drop n xs)))"
      using 1(3) by auto
    then show ?thesis
    proof
      assume "c = take n xs" with False show ?thesis by simp
    next
      assume "c \<in> set (butlast (split_every n (drop n xs)))"
      with 1(1) [of c] ne 1(2) show ?thesis by simp
    qed
  qed
qed

lemma split_every_last:
  "0 < n \<Longrightarrow> xs \<noteq> [] \<Longrightarrow>
   length (last (split_every n xs)) = (if n dvd length xs then n else length xs mod n)"
proof (induction n xs rule: split_every.induct)
  case (1 n xs)
  show ?case
  proof (cases "length xs \<le> n")
    case True
    then have s: "split_every n xs = [xs]"
      using 1(2,3) by (simp add: split_every_single)
    from True 1(3) have "length xs = n \<or> (0 < length xs \<and> length xs < n)" by (cases xs) auto
    then show ?thesis unfolding s by (auto dest: dvd_imp_le simp: )
  next
    case False
    then have dne: "drop n xs \<noteq> []" by simp
    then have "split_every n (drop n xs) \<noteq> []"
      using 1(2) by (subst split_every.simps) simp
    moreover have "split_every n xs = take n xs # split_every n (drop n xs)"
      using 1(2,3) by (subst split_every.simps) simp
    ultimately have "last (split_every n xs) = last (split_every n (drop n xs))" by simp
    moreover have "length (last (split_every n (drop n xs))) =
        (if n dvd length (drop n xs) then n else length (drop n xs) mod n)"
      using 1(1) 1(2,3) dne by simp
    moreover from False have "length xs = (length xs - n) + n" by simp
    then have "(n dvd length xs) = (n dvd (length xs - n))" "length xs mod n = (length xs - n) mod n"
      by (metis dvd_add_triv_right_iff, metis mod_add_self2)
    ultimately show ?thesis by simp
  qed
qed

lemma ceiling_chunks: 
  assumes "0 < n"
  shows "int ((L + n - 1) div n) = \<lceil>real L / real n\<rceil>"
proof -
  define q where "q = (L + n - 1) div n"
  have a: "q * n + (L + n - 1) mod n = L + n - 1"
    unfolding q_def by simp
  have b: "(L + n - 1) mod n < n"
    using assms by simp
  from a b assms have lo: "L \<le> q * n" and hi: "q * n < L + n"
    by linarith+
  from lo have "real L \<le> real q * real n"
    by (metis of_nat_le_iff of_nat_mult)
  then have le: "real L / real n \<le> real q"
    using assms by (simp add: pos_divide_le_eq)
  from hi have "real q * real n < real L + real n"
    by (metis of_nat_less_iff of_nat_mult of_nat_add)
  then have "(real q - 1) * real n < real L"
    by (simp add: algebra_simps)
  then have lt: "real q - 1 < real L / real n"
    using assms by (simp add: pos_less_divide_eq)
  have "\<lceil>real L / real n\<rceil> = int q"
    by (rule ceiling_unique) (use le lt in simp_all)
  then show ?thesis by (simp add: q_def)
qed

lemma chunk_loop_split:
  "0 < n \<Longrightarrow> chunk_size a = int n \<Longrightarrow> length chunk < n \<Longrightarrow>
   chunk_loop a f chunk chunks_args =
     chunks_args @ map (\<lambda>c. (c, host a, backend a)) (split_every n (chunk @ map (prepare_line a) f))"
proof (induction f arbitrary: chunk chunks_args)
  case Nil
  then show ?case
    by (cases "chunk = []") (simp_all add: split_every_Nil split_every_single)
next
  case (Cons line f)
  show ?case
  proof (cases "length (chunk @ [prepare_line a line]) = n")
    case True
    have "chunk @ map (prepare_line a) (line # f) = (chunk @ [prepare_line a line]) @ map (prepare_line a) f"
      by simp
    then have "split_every n (chunk @ map (prepare_line a) (line # f)) =
       (chunk @ [prepare_line a line]) # split_every n ([] @ map (prepare_line a) f)"
      using split_every_step [OF Cons.prems(1) True] by simp
    moreover have "chunk_loop a (line # f) chunk chunks_args =
       chunk_loop a f [] (chunks_args @ [(chunk @ [prepare_line a line], host a, backend a)])"
      using True Cons.prems(2) by (simp add: Let_def)
    ultimately show ?thesis
      using Cons.IH [of "[]"] Cons.prems by simp
  next
    case False
    with Cons.prems have lt: "length (chunk @ [prepare_line a line]) < n" by simp
    have "chunk_loop a (line # f) chunk chunks_args =
       chunk_loop a f (chunk @ [prepare_line a line]) chunks_args"
      using False Cons.prems(2) by (simp add: Let_def)
    then show ?thesis
      using Cons.IH [OF Cons.prems(1,2) lt] by simp
  qed
qed

lemma chunk_loop_nonpositive:
  "chunk_size a \<le> 0 \<Longrightarrow>
   chunk_loop a f chunk chunks_args =
     (if chunk @ map (prepare_line a) f \<noteq> []
      then chunks_args @ [(chunk @ map (prepare_line a) f, host a, backend a)]
      else chunks_args)"
  by (induction f arbitrary: chunk chunks_args) (simp_all add: Let_def)


section \<open>The chunks of a file\<close>

lemma chunk_loop_chunks:
  assumes "0 < chunk_size a"
  shows "map fst (chunk_loop a f [] []) = split_every (nat (chunk_size a)) (map (prepare_line a) f)"
proof -
  have "chunk_loop a f [] [] =
      [] @ map (\<lambda>c. (c, host a, backend a)) (split_every (nat (chunk_size a)) ([] @ map (prepare_line a) f))"
    using assms by (intro chunk_loop_split) simp_all
  then show ?thesis by (simp add: comp_def)
qed

text \<open>
  C1. With a chunk size \<open>N > 0\<close>, the loop of \<open>main\<close> cuts the \<open>L\<close> lines of the file into
  \<open>ceil (L / N)\<close> chunks; the chunks, one after the other, are the lines of the file as
  they enter the chunks (without their line terminator, and without their last token
  when that is asked for), in the order of the file. When \<open>N\<close> divides \<open>L\<close> every chunk
  has \<open>N\<close> lines; otherwise the last chunk has \<open>L mod N\<close> lines and every chunk before it
  has \<open>N\<close> lines. A file without lines gives no chunk.
\<close>

theorem chunker_partitions_lines:
  assumes "0 < chunk_size a"
  shows "(let cs = map fst (chunk_loop a f [] []); L = length f; N = chunk_size a in
      int (length cs) = \<lceil>real L / real_of_int N\<rceil>
    \<and> concat cs = map (prepare_line a) f
    \<and> (\<not> omit_timestamp a \<longrightarrow> concat cs = map (rstrip [NL]) f)
    \<and> (N dvd int L \<longrightarrow> (\<forall>c\<in>set cs. int (length c) = N))
    \<and> (\<not> N dvd int L \<longrightarrow>
         int (length (last cs)) = int L mod N \<and> (\<forall>c\<in>set (butlast cs). int (length c) = N))
    \<and> (L = 0 \<longrightarrow> cs = []))"
proof -
  define n where "n = nat (chunk_size a)"
  define xs where "xs = map (prepare_line a) f"
  define cs where "cs = map fst (chunk_loop a f [] [])"
  have n: "0 < n" "chunk_size a = int n"
    using assms by (simp_all add: n_def)
  have cs: "cs = split_every n xs"
    unfolding cs_def xs_def n_def by (rule chunk_loop_chunks [OF assms])
  have len: "length xs = length f" by (simp add: xs_def)
  have c1: "int (length cs) = \<lceil>real (length f) / real_of_int (chunk_size a)\<rceil>"
    using split_every_length [OF n(1), of xs] ceiling_chunks [OF n(1), of "length f"]
    by (simp add: cs len n(2))
  have c2: "concat cs = map (prepare_line a) f"
    using split_every_concat [OF n(1), of xs] by (simp add: cs xs_def)
  have c3: "\<not> omit_timestamp a \<longrightarrow> concat cs = map (rstrip [NL]) f"
    using c2 by (simp add: prepare_line_def)
  have bl: "\<forall>c\<in>set (butlast cs). int (length c) = chunk_size a"
    using split_every_butlast [OF n(1), of _ xs] by (simp add: cs n(2))
  have c4: "chunk_size a dvd int (length f) \<longrightarrow> (\<forall>c\<in>set cs. int (length c) = chunk_size a)"
  proof (intro impI ballI)
    fix c assume d: "chunk_size a dvd int (length f)" and c: "c \<in> set cs"
    then have ne: "cs \<noteq> []" by auto
    then have "xs \<noteq> []" using cs split_every_Nil [of n] by auto
    then have "length (last cs) = n"
      using split_every_last [OF n(1), of xs] d by (simp add: cs len n(2))
    moreover from ne c have "c = last cs \<or> c \<in> set (butlast cs)"
      by (metis Un_iff append_butlast_last_id insert_iff list.set(2) set_append empty_iff list.set(1))
    ultimately show "int (length c) = chunk_size a"
      using bl n(2) by auto
  qed
  have c5: "\<not> chunk_size a dvd int (length f) \<longrightarrow> int (length (last cs)) = int (length f) mod chunk_size a"
  proof
    assume d: "\<not> chunk_size a dvd int (length f)"
    then have "xs \<noteq> []" using len by auto
    then have "length (last cs) = length f mod n"
      using split_every_last [OF n(1), of xs] d by (simp add: cs len n(2))
    then show "int (length (last cs)) = int (length f) mod chunk_size a"
      by (simp add: n(2) zmod_int)
  qed
  have c6: "length f = 0 \<longrightarrow> cs = []"
    by (simp add: cs xs_def split_every_Nil)
  from c1 c2 c3 c4 c5 c6 bl show ?thesis
    unfolding Let_def cs_def by blast
qed

theorem chunker_partitions_lines_witness:
  "0 < chunk_size demo_args
   \<and> (let cs = map fst (chunk_loop demo_args ten_lines [] []); L = length ten_lines; N = chunk_size demo_args in
      int (length cs) = \<lceil>real L / real_of_int N\<rceil>
    \<and> concat cs = map (prepare_line demo_args) ten_lines
    \<and> (\<not> omit_timestamp demo_args \<longrightarrow> concat cs = map (rstrip [NL]) ten_lines)
    \<and> (N dvd int L \<longrightarrow> (\<forall>c\<in>set cs. int (length c) = N))
    \<and> (\<not> N dvd int L \<longrightarrow>
         int (length (last cs)) = int L mod N \<and> (\<forall>c\<in>set (butlast cs). int (length c) = N))
    \<and> (L = 0 \<longrightarrow> cs = []))
   \<and> \<not> chunk_size demo_args dvd int (length ten_lines)
   \<and> map fst (chunk_loop demo_args ten_lines [] []) =
       [[''r0 1'', ''r1 1'', ''r2 1''], [''r3 1'', ''r4 1'', ''r5 1''], [''r6 1'', ''r7 1'', ''r8 1''], [''r9 1'']]"
proof -
  have h: "0 < chunk_size demo_args" by (simp add: demo_args_def)
  have d: "\<not> chunk_size demo_args dvd int (length ten_lines)"
    by (simp add: demo_args_def ten_lines_def)
  have v: "map fst (chunk_loop demo_args ten_lines [] []) =
       [[''r0 1'', ''r1 1'', ''r2 1''], [''r3 1'', ''r4 1'', ''r5 1''], [''r6 1'', ''r7 1'', ''r8 1''], [''r9 1'']]"
    by (simp add: demo_args_def ten_lines_def prepare_line_def rstrip_def NL_def Let_def)
  from h d v chunker_partitions_lines [OF h, of ten_lines] show ?thesis by blast
qed

section \<open>The endpoint of a backend\<close>

text \<open>
  C3. For every host, \<open>get_endpoint\<close> first removes the trailing slashes of the host
  (what is left is the host without them, and does not end with a slash), then
  returns that host followed by \<open>/write\<close> for the backend "questdb" and followed by
  \<open>/api/v3/write_lp?db=sensors&precision=auto\<close> for the backend "influxdb"; for every
  other backend it raises an error. The two examples of the specification hold.
\<close>

theorem get_endpoint_resolves:
  "\<exists>k. h = rstrip ''/'' h @ replicate k (CHR ''/'')
     \<and> (rstrip ''/'' h = [] \<or> last (rstrip ''/'' h) \<noteq> CHR ''/'')
     \<and> get_endpoint h ''questdb'' = Inr (rstrip ''/'' h @ ''/write'')
     \<and> get_endpoint h ''influxdb'' = Inr (rstrip ''/'' h @ ''/api/v3/write_lp?db=sensors&precision=auto'')
     \<and> (b \<noteq> ''questdb'' \<and> b \<noteq> ''influxdb'' \<longrightarrow>
          get_endpoint h b = Inl (ValueError (''Unsupported backend: '' @ b)))
     \<and> get_endpoint ''http://h:9/'' ''questdb'' = Inr ''http://h:9/write''
     \<and> get_endpoint ''http://h:9'' ''influxdb'' = Inr ''http://h:9/api/v3/write_lp?db=sensors&precision=auto''"
proof -
  obtain k where k: "h = rstrip ''/'' h @ replicate k (CHR ''/'')"
    using rstrip_decompose [of h "CHR ''/''"] by blast
  have t: "rstrip ''/'' h = [] \<or> last (rstrip ''/'' h) \<noteq> CHR ''/''"
    by (rule rstrip_no_trailing)
  have q: "get_endpoint h ''questdb'' = Inr (rstrip ''/'' h @ ''/write'')"
    by (simp add: get_endpoint_def)
  have i: "get_endpoint h ''influxdb'' = Inr (rstrip ''/'' h @ ''/api/v3/write_lp?db=sensors&precision=auto'')"
    by (simp add: get_endpoint_def)
  have u: "b \<noteq> ''questdb'' \<and> b \<noteq> ''influxdb'' \<longrightarrow>
          get_endpoint h b = Inl (ValueError (''Unsupported backend: '' @ b))"
    by (simp add: get_endpoint_def)
  have e1: "get_endpoint ''http://h:9/'' ''questdb'' = Inr ''http://h:9/write''"
    by (simp add: get_endpoint_def rstrip_def)
  have e2: "get_endpoint ''http://h:9'' ''influxdb'' = Inr ''http://h:9/api/v3/write_lp?db=sensors&precision=auto''"
    by (simp add: get_endpoint_def rstrip_def)
  from k t q i u e1 e2 show ?thesis by blast
qed


theorem get_endpoint_resolves_witness:
  "(''mysql'' \<noteq> ''questdb'' \<and> ''mysql'' \<noteq> ''influxdb'')
   \<and> get_endpoint ''http://h:9//'' ''mysql'' = Inl (ValueError ''Unsupported backend: mysql'')
   \<and> get_endpoint ''http://h:9//'' ''questdb'' = Inr ''http://h:9/write''"
proof -
  have h: "''mysql'' \<noteq> ''questdb'' \<and> ''mysql'' \<noteq> ''influxdb''" by simp
  have r: "rstrip ''/'' ''http://h:9//'' = ''http://h:9''" by (simp add: rstrip_def)
  from h r get_endpoint_resolves [of "''http://h:9//''" "''mysql''"] show ?thesis by simp
qed


section \<open>The removal of the timestamp\<close>

text \<open>
  C10. The removal of the timestamp splits at the space character only, and removes
  at most the last space and what follows it: a line without a space is unchanged,
  also when it contains a tab; when the last token follows several spaces, only the
  last of them is removed; a line that ends with a space only loses that space.
\<close>

theorem strip_timestamp_space_only:
  "(CHR '' '' \<notin> set line \<longrightarrow> strip_timestamp line = line)
   \<and> strip_timestamp (''a'' @ [TAB] @ ''123'') = ''a'' @ [TAB] @ ''123''
   \<and> (CHR '' '' \<notin> set tok \<longrightarrow> strip_timestamp (pre @ CHR '' '' # tok) = pre)
   \<and> (CHR '' '' \<notin> set tok \<longrightarrow> strip_timestamp (pre @ ''  '' @ tok) = pre @ '' '')
   \<and> strip_timestamp (pre @ '' '') = pre"
proof -
  have a: "CHR '' '' \<notin> set line \<longrightarrow> strip_timestamp line = line"
    by (simp add: strip_timestamp_none)
  have b: "strip_timestamp (''a'' @ [TAB] @ ''123'') = ''a'' @ [TAB] @ ''123''"
    by (rule strip_timestamp_none) (simp add: TAB_def)
  have c: "CHR '' '' \<notin> set tok \<longrightarrow> strip_timestamp (pre @ CHR '' '' # tok) = pre"
    by (simp add: strip_timestamp_last)
  have d: "CHR '' '' \<notin> set tok \<longrightarrow> strip_timestamp (pre @ ''  '' @ tok) = pre @ '' ''"
    using strip_timestamp_last [of tok "pre @ '' ''"] by simp
  have e: "strip_timestamp (pre @ '' '') = pre"
    using strip_timestamp_last [of "[]" pre] by simp
  from a b c d e show ?thesis by blast
qed


theorem strip_timestamp_space_only_witness:
  "CHR '' '' \<notin> set ''123'' \<and> CHR '' '' \<notin> set (''cpu'' @ [TAB] @ ''123'')
   \<and> strip_timestamp (''cpu'' @ [TAB] @ ''123'') = ''cpu'' @ [TAB] @ ''123''
   \<and> strip_timestamp ''cpu  123'' = ''cpu ''
   \<and> strip_timestamp ''cpu v=1 '' = ''cpu v=1''"
proof -
  have h: "CHR '' '' \<notin> set ''123''" "CHR '' '' \<notin> set (''cpu'' @ [TAB] @ ''123'')"
    by (simp_all add: TAB_def)
  from h strip_timestamp_space_only [of "''cpu'' @ [TAB] @ ''123''" "''123''" "''cpu''"]
    strip_timestamp_space_only [of "[]" "[]" "''cpu v=1''"]
  show ?thesis by simp
qed


text \<open>
  C2. The comment of line 72 says that the last token is removed "along with
  preceding whitespace", and the specification says the same of the final
  whitespace-delimited token. The code splits at the space character only: the line
  made of \<open>a\<close>, a tab and \<open>123\<close> contains whitespace and its final token is \<open>123\<close>, so the
  transformation of the specification gives \<open>a\<close>, but the code leaves the line
  unchanged; and of the line \<open>cpu\<close>, two spaces, \<open>123\<close> the code leaves \<open>cpu\<close> followed by
  a space, where the specification gives \<open>cpu\<close>.
\<close>

theorem strip_timestamp_keeps_whitespace:
  "is_whitespace TAB
   \<and> strip_timestamp (''a'' @ [TAB] @ ''123'') = ''a'' @ [TAB] @ ''123''
   \<and> remove_last_token_spec (''a'' @ [TAB] @ ''123'') = ''a''
   \<and> strip_timestamp ''cpu  123'' = ''cpu ''
   \<and> remove_last_token_spec ''cpu  123'' = ''cpu''"
  by (simp add: strip_timestamp_def rsplit1_def remove_last_token_spec_def is_whitespace_def TAB_def NL_def)

section \<open>Sending the chunks\<close>

lemma get_endpoint_known: "known_backend b \<Longrightarrow> \<exists>url. get_endpoint h b = Inr url"
  by (auto simp: known_backend_def get_endpoint_def)

lemma known_backend_iff: "known_backend b \<longleftrightarrow> b = ''questdb'' \<or> b = ''influxdb''"
  by (simp add: known_backend_def)

lemma send_chunk_valid:
  assumes "get_endpoint h b = Inr url"
  shows "send_chunk net ls h b w =
     (Inr (length ls, snd (net (requests w) url (join [NL] ls @ [NL]))),
      w\<lparr>requests := requests w @ [(url, join [NL] ls @ [NL])],
        console := console w @ chunk_report (length ls) (net (requests w) url (join [NL] ls @ [NL]))\<rparr>)"
proof (cases "net (requests w) url (join [NL] ls @ [NL])")
  case (Pair oc d)
  show ?thesis
  proof (cases oc)
    case (Responded r)
    with Pair assms show ?thesis
      by (simp add: send_chunk_def post_def print_def chunk_report_def)
  next
    case (Raised e)
    with Pair assms show ?thesis
      by (simp add: send_chunk_def post_def print_def chunk_report_def)
  qed
qed

lemma send_chunk_wrapper_known:
  assumes "known_backend b"
  shows "\<exists>d ms. send_chunk_wrapper net (ls, h, b) w =
     (Inr (length ls, d),
      w\<lparr>requests := requests w @ [request_of (ls, h, b)], console := console w @ ms\<rparr>)"
proof -
  from get_endpoint_known [OF assms] obtain url where u: "get_endpoint h b = Inr url" ..
  have "send_chunk_wrapper net (ls, h, b) w =
     (Inr (length ls, snd (net (requests w) url (join [NL] ls @ [NL]))),
      w\<lparr>requests := requests w @ [request_of (ls, h, b)],
        console := console w @ chunk_report (length ls) (net (requests w) url (join [NL] ls @ [NL]))\<rparr>)"
    using send_chunk_valid [OF u, of net ls w]
    by (simp add: send_chunk_wrapper_def request_of_def u)
  then show ?thesis by blast
qed

lemma aggregate_sums:
  "aggregate rs total_rows total_request_time =
     (total_rows + sum_list (map fst rs), total_request_time + sum_list (map snd rs))"
  by (induction rs total_rows total_request_time rule: aggregate.induct) simp_all

lemma chunk_loop_rows:
  "sum_list (map (\<lambda>c. length (fst c)) (chunk_loop a f chunk chunks_args)) =
     sum_list (map (\<lambda>c. length (fst c)) chunks_args) + length chunk + length f"
  by (induction f arbitrary: chunk chunks_args) (simp_all add: Let_def)

lemma chunk_loop_backend:
  "list_all (\<lambda>c. snd (snd c) = backend a) chunks_args \<Longrightarrow>
   list_all (\<lambda>c. snd (snd c) = backend a) (chunk_loop a f chunk chunks_args)"
  by (induction f arbitrary: chunk chunks_args) (simp_all add: Let_def)

text \<open>
  C7. For every chunk with at least one line (and one of the two backends),
  \<open>send_chunk\<close> issues exactly one request, to the endpoint of the backend, and its body
  is the lines of the chunk joined by a newline, with one newline appended: every
  line of the chunk followed by exactly one newline.
\<close>

theorem send_chunk_body:
  assumes "ls \<noteq> []" and "b = ''questdb'' \<or> b = ''influxdb''"
  shows "\<exists>url. get_endpoint h b = Inr url
     \<and> requests (snd (send_chunk net ls h b w)) = requests w @ [(url, join [NL] ls @ [NL])]
     \<and> join [NL] ls @ [NL] = concat (map (\<lambda>l. l @ [NL]) ls)"
proof -
  from assms(2) have "known_backend b" by (simp add: known_backend_iff)
  from get_endpoint_known [OF this] obtain url where u: "get_endpoint h b = Inr url" ..
  have r: "requests (snd (send_chunk net ls h b w)) = requests w @ [(url, join [NL] ls @ [NL])]"
    by (simp add: send_chunk_valid [OF u])
  have j: "join [NL] ls @ [NL] = concat (map (\<lambda>l. l @ [NL]) ls)"
    by (rule join_terminated [OF assms(1)])
  from u r j show ?thesis by blast
qed

theorem send_chunk_body_witness:
  "[''a 1'', ''b 2''] \<noteq> [] \<and> (''questdb'' = ''questdb'' \<or> ''questdb'' = ''influxdb'')
   \<and> (\<exists>url. get_endpoint ''http://h:9'' ''questdb'' = Inr url
     \<and> requests (snd (send_chunk accepting_net [''a 1'', ''b 2''] ''http://h:9'' ''questdb'' empty_world)) =
         requests empty_world @ [(url, join [NL] [''a 1'', ''b 2''] @ [NL])]
     \<and> join [NL] [''a 1'', ''b 2''] @ [NL] = concat (map (\<lambda>l. l @ [NL]) [''a 1'', ''b 2'']))
   \<and> join [NL] [''a 1'', ''b 2''] @ [NL] = ''a 1'' @ [NL] @ ''b 2'' @ [NL]"
proof -
  have h1: "[''a 1'', ''b 2''] \<noteq> []" by simp
  have h2: "''questdb'' = ''questdb'' \<or> ''questdb'' = ''influxdb''" by simp
  have v: "join [NL] [''a 1'', ''b 2''] @ [NL] = ''a 1'' @ [NL] @ ''b 2'' @ [NL]" by simp
  note t = send_chunk_body [OF h1 h2, of "''http://h:9''" accepting_net empty_world]
  show ?thesis by (intro conjI h1 h2 t v)
qed

section \<open>A call, step by step\<close>

text \<open>
  Every step of a call brings it nearer to its end, and a call that runs alone, step
  by step, does what \<open>send_chunk_wrapper\<close> does.
\<close>

lemma chunk_report_length: "length (chunk_report n r) \<le> 2"
  by (cases r) (auto simp: chunk_report_def split: outcome.splits)

lemma call_step_Called_known:
  assumes "get_endpoint h b = Inr url"
  shows "call_step net (Called (ls, h, b)) w =
     (Running (Posted (length ls, snd (net (requests w) url (join [NL] ls @ [NL])))
        (chunk_report (length ls) (net (requests w) url (join [NL] ls @ [NL])))),
      w\<lparr>requests := requests w @ [(url, join [NL] ls @ [NL])]\<rparr>)"
  using assms by (simp add: post_def Let_def)

lemma call_step_Called_unknown:
  assumes "get_endpoint h b = Inl e"
  shows "call_step net (Called (ls, h, b)) w = (Raises e, w)"
  using assms by simp

lemma call_step_work:
  assumes "call_step net t w = (Running t', w')"
  shows "call_work t' < call_work t"
proof (cases t)
  case (Called args)
  obtain ls h b where a: "args = (ls, h, b)" by (cases args) auto
  show ?thesis
  proof (cases "get_endpoint h b")
    case (Inl e)
    with assms Called a show ?thesis by simp
  next
    case (Inr url)
    from assms have "t' = Posted (length ls, snd (net (requests w) url (join [NL] ls @ [NL])))
        (chunk_report (length ls) (net (requests w) url (join [NL] ls @ [NL])))"
      unfolding Called a call_step_Called_known [OF Inr] by simp
    then show ?thesis
      using chunk_report_length [of "length ls" "net (requests w) url (join [NL] ls @ [NL])"]
      by (simp add: Called)
  qed
next
  case (Posted r ms)
  with assms show ?thesis by (cases ms) auto
qed

lemma call_run_print:
  "call_run (Suc (length ms)) net (Posted r ms) w = (Returns r, w\<lparr>console := console w @ ms\<rparr>)"
  by (induction ms arbitrary: w) simp_all

lemma call_run_mono:
  "call_run n net c w = (Returns r, w') \<Longrightarrow> call_run (n + m) net c w = (Returns r, w')"
  by (induction n net c w rule: call_run.induct) (auto split: prod.splits progress.splits)

lemma call_run_send_chunk_wrapper:
  "call_run 4 net (Called args) w =
     (case send_chunk_wrapper net args w of
        (Inl e, w') \<Rightarrow> (Raises e, w')
      | (Inr r, w') \<Rightarrow> (Returns r, w'))"
proof -
  obtain ls h b where a: "args = (ls, h, b)" by (cases args) auto
  show ?thesis
  proof (cases "get_endpoint h b")
    case (Inl e)
    then show ?thesis
      by (simp add: a send_chunk_wrapper_def send_chunk_def numeral_eq_Suc)
  next
    case (Inr url)
    define r where "r = net (requests w) url (join [NL] ls @ [NL])"
    define w1 where "w1 = w\<lparr>requests := requests w @ [(url, join [NL] ls @ [NL])]\<rparr>"
    define ms where "ms = chunk_report (length ls) r"
    have "length ms \<le> 2" unfolding ms_def by (rule chunk_report_length)
    then obtain m where m: "3 = Suc (length ms) + m"
      by (metis add_Suc le_Suc_ex numeral_3_eq_3 numeral_2_eq_2 add_Suc_right)
    have p: "call_run 3 net (Posted (length ls, snd r) ms) w1 =
        (Returns (length ls, snd r), w1\<lparr>console := console w1 @ ms\<rparr>)"
      by (subst m) (rule call_run_mono [OF call_run_print])
    have "call_run 4 net (Called (ls, h, b)) w = call_run 3 net (Posted (length ls, snd r) ms) w1"
      using call_step_Called_known [OF Inr, of net ls w]
      by (simp add: numeral_eq_Suc r_def w1_def ms_def del: call_step.simps)
    with p show ?thesis
      by (simp add: a send_chunk_wrapper_def send_chunk_valid [OF Inr] r_def w1_def ms_def)
  qed
qed

section \<open>The steps of a worker\<close>

text \<open>
  The cases of a step of a worker.
\<close>

lemma worker_step_cases [case_names skip take_empty take post raise print return_last return_next]:
  obtains
    "length (procs st) \<le> i \<or> (procs st ! i = Idle \<and> inqueue st = [])"
      "worker_step net i (st, w) = (st, w)"
  | k q where "i < length (procs st)" "procs st ! i = Idle" "inqueue st = (k, []) # q"
      "worker_step net i (st, w) = (st\<lparr>inqueue := q, outqueue := outqueue st @ [(k, Inr [])]\<rparr>, w)"
  | k c cs q where "i < length (procs st)" "procs st ! i = Idle" "inqueue st = (k, c # cs) # q"
      "worker_step net i (st, w) =
        (st\<lparr>inqueue := q, procs := (procs st)[i := Busy k (Called c) cs []]\<rparr>, w)"
  | k ls h b rest acc url where "i < length (procs st)"
      "procs st ! i = Busy k (Called (ls, h, b)) rest acc" "get_endpoint h b = Inr url"
      "worker_step net i (st, w) =
        (st\<lparr>procs := (procs st)[i := Busy k
            (Posted (length ls, snd (net (requests w) url (join [NL] ls @ [NL])))
              (chunk_report (length ls) (net (requests w) url (join [NL] ls @ [NL])))) rest acc]\<rparr>,
         w\<lparr>requests := requests w @ [(url, join [NL] ls @ [NL])]\<rparr>)"
  | k ls h b rest acc e where "i < length (procs st)"
      "procs st ! i = Busy k (Called (ls, h, b)) rest acc" "get_endpoint h b = Inl e"
      "worker_step net i (st, w) =
        (st\<lparr>procs := (procs st)[i := Idle], outqueue := outqueue st @ [(k, Inl e)]\<rparr>, w)"
  | k r m ms rest acc where "i < length (procs st)"
      "procs st ! i = Busy k (Posted r (m # ms)) rest acc"
      "worker_step net i (st, w) =
        (st\<lparr>procs := (procs st)[i := Busy k (Posted r ms) rest acc]\<rparr>,
         w\<lparr>console := console w @ [m]\<rparr>)"
  | k r acc where "i < length (procs st)" "procs st ! i = Busy k (Posted r []) [] acc"
      "worker_step net i (st, w) =
        (st\<lparr>procs := (procs st)[i := Idle], outqueue := outqueue st @ [(k, Inr (acc @ [r]))]\<rparr>, w)"
  | k r c cs acc where "i < length (procs st)" "procs st ! i = Busy k (Posted r []) (c # cs) acc"
      "worker_step net i (st, w) =
        (st\<lparr>procs := (procs st)[i := Busy k (Called c) cs (acc @ [r])]\<rparr>, w)"
proof (cases "length (procs st) \<le> i")
  case True
  then have "worker_step net i (st, w) = (st, w)" by (simp add: worker_step_def)
  with True that(1) show ?thesis by blast
next
  case False
  then have i: "i < length (procs st)" by simp
  show ?thesis
  proof (cases "procs st ! i")
    case Idle
    show ?thesis
    proof (cases "inqueue st")
      case Nil
      with Idle i have "worker_step net i (st, w) = (st, w)" by (simp add: worker_step_def)
      with Idle Nil that(1) show ?thesis by blast
    next
      case (Cons kb q)
      obtain k batch where kb: "kb = (k, batch)" by (cases kb) auto
      show ?thesis
      proof (cases batch)
        case Nil
        with Idle Cons kb i show ?thesis
          by (intro that(2) [of k q]) (simp_all add: worker_step_def)
      next
        case (Cons c cs)
        with Idle \<open>inqueue st = kb # q\<close> kb i show ?thesis
          by (intro that(3) [of k c cs q]) (simp_all add: worker_step_def)
      qed
    qed
  next
    case (Busy k t rest acc)
    show ?thesis
    proof (cases t)
      case (Called args)
      obtain ls h b where a: "args = (ls, h, b)" by (cases args) auto
      show ?thesis
      proof (cases "get_endpoint h b")
        case (Inl e)
        with Busy Called a i show ?thesis
          by (intro that(5) [of k ls h b rest acc e]) (simp_all add: worker_step_def)
      next
        case (Inr url)
        with Busy Called a i show ?thesis
          by (intro that(4) [of k ls h b rest acc url])
            (simp_all add: worker_step_def call_step_Called_known del: call_step.simps)
      qed
    next
      case (Posted r ms)
      show ?thesis
      proof (cases ms)
        case Nil
        show ?thesis
        proof (cases rest)
          case Nil
          with Busy Posted \<open>ms = []\<close> i show ?thesis
            by (intro that(7) [of k r acc]) (simp_all add: worker_step_def)
        next
          case (Cons c cs)
          with Busy Posted \<open>ms = []\<close> i show ?thesis
            by (intro that(8) [of k r c cs acc]) (simp_all add: worker_step_def)
        qed
      next
        case (Cons m ms')
        with Busy Posted i show ?thesis
          by (intro that(6) [of k r m ms' rest acc]) (simp_all add: worker_step_def)
      qed
    qed
  qed
qed

lemma sum_list_map_update:
  fixes f :: "'a \<Rightarrow> 'b::comm_monoid_add"
  assumes "i < length xs"
  shows "sum_list (map f (xs[i := y])) + f (xs ! i) = sum_list (map f xs) + f y"
proof -
  have "xs = take i xs @ xs ! i # drop (Suc i) xs"
    using assms by (simp add: id_take_nth_drop [symmetric])
  moreover have "xs[i := y] = take i xs @ y # drop (Suc i) xs"
    using assms by (simp add: upd_conv_take_nth_drop)
  ultimately have "sum_list (map f (xs[i := y])) + f (xs ! i) =
      sum_list (map f (take i xs)) + f y + sum_list (map f (drop (Suc i) xs)) + f (xs ! i)"
    and "sum_list (map f xs) + f y =
      sum_list (map f (take i xs)) + f (xs ! i) + sum_list (map f (drop (Suc i) xs)) + f y"
    by (metis (no_types, lifting) add.assoc list.simps(9) map_append sum_list.Cons sum_list.append)+
  then show ?thesis by (simp add: ac_simps)
qed

section \<open>Every run of the pool finishes\<close>

text \<open>
  No step adds to the work left, and the step of a worker that is busy, or that can
  take a batch, takes from it. So a round of all the workers takes from the work left
  as long as the pool has not finished, and after as many rounds as there was work
  at the start the pool has finished.
\<close>

lemma worker_step_length:
  "length (procs (fst (worker_step net i (st, w)))) = length (procs st)"
  by (cases rule: worker_step_cases [of st i net w]) simp_all

lemma worker_step_other:
  "j \<noteq> i \<Longrightarrow> procs (fst (worker_step net i (st, w))) ! j = procs st ! j"
  by (cases rule: worker_step_cases [of st i net w]) simp_all

lemma worker_step_work_le: "work (fst (worker_step net i (st, w))) \<le> work st"
proof (cases rule: worker_step_cases [of st i net w])
  case skip
  then show ?thesis by simp
next
  case (take_empty k q)
  then show ?thesis by (simp add: work_def)
next
  case (take k c cs q)
  with sum_list_map_update [of i "procs st" worker_work "Busy k (Called c) cs []"]
  show ?thesis by (simp add: work_def)
next
  case (post k ls h b rest acc url)
  with sum_list_map_update [of i "procs st" worker_work "Busy k
            (Posted (length ls, snd (net (requests w) url (join [NL] ls @ [NL])))
              (chunk_report (length ls) (net (requests w) url (join [NL] ls @ [NL])))) rest acc"]
    chunk_report_length [of "length ls" "net (requests w) url (join [NL] ls @ [NL])"]
  show ?thesis by (simp add: work_def)
next
  case (raise k ls h b rest acc e)
  with sum_list_map_update [of i "procs st" worker_work Idle]
  show ?thesis by (simp add: work_def)
next
  case (print k r m ms rest acc)
  with sum_list_map_update [of i "procs st" worker_work "Busy k (Posted r ms) rest acc"]
  show ?thesis by (simp add: work_def)
next
  case (return_last k r acc)
  with sum_list_map_update [of i "procs st" worker_work Idle]
  show ?thesis by (simp add: work_def)
next
  case (return_next k r c cs acc)
  with sum_list_map_update [of i "procs st" worker_work "Busy k (Called c) cs (acc @ [r])"]
  show ?thesis by (simp add: work_def)
qed

lemma worker_step_work_less:
  assumes "i < length (procs st)" and "procs st ! i \<noteq> Idle \<or> inqueue st \<noteq> []"
  shows "work (fst (worker_step net i (st, w))) < work st"
proof (cases rule: worker_step_cases [of st i net w])
  case skip
  with assms show ?thesis by auto
next
  case (take_empty k q)
  then show ?thesis by (simp add: work_def)
next
  case (take k c cs q)
  with sum_list_map_update [of i "procs st" worker_work "Busy k (Called c) cs []"]
  show ?thesis by (simp add: work_def)
next
  case (post k ls h b rest acc url)
  with sum_list_map_update [of i "procs st" worker_work "Busy k
            (Posted (length ls, snd (net (requests w) url (join [NL] ls @ [NL])))
              (chunk_report (length ls) (net (requests w) url (join [NL] ls @ [NL])))) rest acc"]
    chunk_report_length [of "length ls" "net (requests w) url (join [NL] ls @ [NL])"]
  show ?thesis by (simp add: work_def)
next
  case (raise k ls h b rest acc e)
  with sum_list_map_update [of i "procs st" worker_work Idle]
  show ?thesis by (simp add: work_def)
next
  case (print k r m ms rest acc)
  with sum_list_map_update [of i "procs st" worker_work "Busy k (Posted r ms) rest acc"]
  show ?thesis by (simp add: work_def)
next
  case (return_last k r acc)
  with sum_list_map_update [of i "procs st" worker_work Idle]
  show ?thesis by (simp add: work_def)
next
  case (return_next k r c cs acc)
  with sum_list_map_update [of i "procs st" worker_work "Busy k (Called c) cs (acc @ [r])"]
  show ?thesis by (simp add: work_def)
qed

lemma finished_step: "finished st \<Longrightarrow> worker_step net i (st, w) = (st, w)"
  by (cases rule: worker_step_cases [of st i net w])
    (auto simp: finished_def list_all_length)

lemma finished_fold: "finished (fst sw) \<Longrightarrow> fold (worker_step net) sched sw = sw"
proof (induction sched)
  case (Cons i sched)
  obtain st w where sw: "sw = (st, w)" by (cases sw)
  with Cons.prems have "worker_step net i sw = sw" by (simp add: finished_step)
  with Cons show ?case by simp
qed simp

lemma work_0_finished: "work st = 0 \<Longrightarrow> finished st"
proof -
  assume "work st = 0"
  then have q: "inqueue st = []" and p: "\<forall>p\<in>set (procs st). worker_work p = 0"
    by (cases "inqueue st"; simp add: work_def)+
  have "p = Idle" if "p \<in> set (procs st)" for p
  proof (cases p)
    case (Busy k t rest acc)
    with p that have "call_work t = 0" by auto
    then show ?thesis by (cases t) simp_all
  qed simp
  with q show ?thesis by (simp add: finished_def list_all_iff)
qed

lemma finished_work_0: "finished st \<Longrightarrow> work st = 0"
  by (auto simp: finished_def work_def list_all_iff)

lemma fold_length: "length (procs (fst (fold (worker_step net) sched sw))) = length (procs (fst sw))"
proof (induction sched arbitrary: sw)
  case (Cons i sched)
  obtain st w where sw: "sw = (st, w)" by (cases sw)
  show ?case using Cons [of "worker_step net i (st, w)"] worker_step_length [of net i st w]
    by (simp add: sw)
qed simp

lemma fold_work_le: "work (fst (fold (worker_step net) sched sw)) \<le> work (fst sw)"
proof (induction sched arbitrary: sw)
  case (Cons i sched)
  obtain st w where sw: "sw = (st, w)" by (cases sw)
  show ?case using Cons [of "worker_step net i (st, w)"] worker_step_work_le [of net i st w]
    by (simp add: sw)
qed simp

lemma fold_busy_less:
  assumes "j \<in> set sched" and "j < length (procs (fst sw))" and "procs (fst sw) ! j \<noteq> Idle"
  shows "work (fst (fold (worker_step net) sched sw)) < work (fst sw)"
  using assms
proof (induction sched arbitrary: sw)
  case Nil
  then show ?case by simp
next
  case (Cons i sched)
  obtain st w where sw: "sw = (st, w)" by (cases sw)
  define sw' where "sw' = worker_step net i (st, w)"
  have f: "fold (worker_step net) (i # sched) sw = fold (worker_step net) sched sw'"
    by (simp add: sw sw'_def)
  show ?case
  proof (cases "i = j")
    case True
    with Cons.prems have "work (fst sw') < work st"
      unfolding sw'_def by (intro worker_step_work_less) (simp_all add: sw)
    moreover have "work (fst (fold (worker_step net) sched sw')) \<le> work (fst sw')"
      by (rule fold_work_le)
    ultimately show ?thesis unfolding f by (simp add: sw)
  next
    case False
    with Cons.prems have j: "j \<in> set sched" by simp
    have l: "j < length (procs (fst sw'))"
      using Cons.prems(2) by (simp add: sw'_def sw worker_step_length)
    have b: "procs (fst sw') ! j \<noteq> Idle"
      using Cons.prems(3) False by (simp add: sw'_def sw worker_step_other)
    have "work (fst (fold (worker_step net) sched sw')) < work (fst sw')"
      by (rule Cons.IH [OF j l b])
    moreover have "work (fst sw') \<le> work st"
      unfolding sw'_def by (rule worker_step_work_le)
    ultimately show ?thesis unfolding f by (simp add: sw)
  qed
qed

lemma round_less:
  assumes "\<not> finished (fst sw)" and "length (procs (fst sw)) = n" and "0 < n"
  shows "work (fst (fold (worker_step net) [0..<n] sw)) < work (fst sw)"
proof (cases "\<exists>j<n. procs (fst sw) ! j \<noteq> Idle")
  case True
  then obtain j where "j < n" "procs (fst sw) ! j \<noteq> Idle" by blast
  with assms(2) show ?thesis by (intro fold_busy_less [of j]) simp_all
next
  case False
  with assms(1,2) have q: "inqueue (fst sw) \<noteq> []"
    by (auto simp: finished_def list_all_length)
  obtain st w where sw: "sw = (st, w)" by (cases sw)
  from assms(3) have u: "[0..<n] = 0 # [Suc 0..<n]" by (simp add: upt_conv_Cons)
  have "work (fst (worker_step net 0 (st, w))) < work st"
    using q assms(2,3) by (intro worker_step_work_less) (simp_all add: sw)
  moreover have "work (fst (fold (worker_step net) [Suc 0..<n] (worker_step net 0 (st, w))))
      \<le> work (fst (worker_step net 0 (st, w)))"
    by (rule fold_work_le)
  ultimately show ?thesis unfolding u by (simp add: sw)
qed

lemma rounds_finish:
  assumes "length (procs (fst sw)) = n" and "0 < n" and "work (fst sw) \<le> m"
  shows "finished (fst (fold (worker_step net) (concat (replicate m [0..<n])) sw))"
  using assms
proof (induction m arbitrary: sw)
  case 0
  then show ?case by (simp add: work_0_finished)
next
  case (Suc m)
  define sw' where "sw' = fold (worker_step net) [0..<n] sw"
  have l: "length (procs (fst sw')) = n"
    unfolding sw'_def using Suc.prems(1) by (simp add: fold_length)
  have "work (fst sw') \<le> m"
  proof (cases "finished (fst sw)")
    case True
    then have "sw' = sw" unfolding sw'_def by (rule finished_fold)
    with True show ?thesis by (simp add: finished_work_0)
  next
    case False
    from round_less [OF False Suc.prems(1,2), of net] Suc.prems(3)
    show ?thesis by (simp add: sw'_def)
  qed
  from Suc.IH [OF l Suc.prems(2) this] show ?case
    by (simp add: sw'_def)
qed

lemma schedule_finishes:
  assumes "length (procs st) = n" and "0 < n"
  shows "finished (fst (fold (worker_step net) (sched @ concat (replicate (work st) [0..<n])) (st, w)))"
proof -
  define sw' where "sw' = fold (worker_step net) sched (st, w)"
  have "length (procs (fst sw')) = n"
    unfolding sw'_def using assms(1) by (simp add: fold_length)
  moreover have "work (fst sw') \<le> work st"
    unfolding sw'_def using fold_work_le [of net sched "(st, w)"] by simp
  ultimately have "finished (fst (fold (worker_step net) (concat (replicate (work st) [0..<n])) sw'))"
    using assms(2) by (intro rounds_finish)
  then show ?thesis by (simp add: sw'_def)
qed

section \<open>The invariants of the pool\<close>

text \<open>
  Every step of a worker keeps the invariants, when every chunk is for a known backend.
\<close>

lemma busy_called_known:
  assumes "inv_workers B st" and "known_batches B" and "i < length (procs st)"
    and "procs st ! i = Busy k (Called (ls, h, b)) rest acc"
  shows "known_backend b"
proof -
  from assms(1,3,4) have k: "k < length B" and l: "length acc < length (B ! k)"
    and c: "B ! k ! length acc = (ls, h, b)"
    by (auto simp: inv_workers_def dest!: spec [of _ i])
  from k l have "B ! k ! length acc \<in> set (B ! k)" "B ! k \<in> set B" by simp_all
  with assms(2) have "known_backend (snd (snd (B ! k ! length acc)))"
    unfolding known_batches_def by blast
  then show ?thesis by (simp add: c)
qed

lemma no_raise:
  assumes "inv_workers B st" and "known_batches B" and "i < length (procs st)"
    and "procs st ! i = Busy k (Called (ls, h, b)) rest acc" and "get_endpoint h b = Inl e"
  shows False
  using get_endpoint_known [OF busy_called_known [OF assms(1-4)], of h] assms(5) by simp

lemma request_of_known: "get_endpoint h b = Inr url \<Longrightarrow> request_of (ls, h, b) = (url, join [NL] ls @ [NL])"
  by (simp add: request_of_def)

lemma inv_queue_step:
  assumes "inv_queue B st"
  shows "inv_queue B (fst (worker_step net i (st, w)))"
  using assms by (cases rule: worker_step_cases [of st i net w]) (auto simp: inv_queue_def)

lemma inv_workers_step:
  assumes "inv_workers B st" and "inv_queue B st"
  shows "inv_workers B (fst (worker_step net i (st, w)))"
proof (cases rule: worker_step_cases [of st i net w])
  case skip
  with assms show ?thesis by simp
next
  case (take_empty k q)
  with assms show ?thesis by (simp add: inv_workers_def)
next
  case (take k c cs q)
  with assms(2) have "k < length B" "B ! k = c # cs" by (auto simp: inv_queue_def)
  with take assms(1) show ?thesis
    by (auto simp: inv_workers_def nth_list_update)
next
  case (post k ls h b rest acc url)
  with assms(1) have "worker_ok B (Busy k (Called (ls, h, b)) rest acc)"
    by (auto simp: inv_workers_def dest!: spec [of _ i])
  then have "worker_ok B (Busy k
            (Posted (length ls, snd (net (requests w) url (join [NL] ls @ [NL])))
              (chunk_report (length ls) (net (requests w) url (join [NL] ls @ [NL])))) rest acc)"
    by auto
  with post assms(1) show ?thesis
    by (auto simp: inv_workers_def nth_list_update)
next
  case (raise k ls h b rest acc e)
  with assms(1) show ?thesis by (auto simp: inv_workers_def nth_list_update)
next
  case (print k r m ms rest acc)
  with assms(1) have "worker_ok B (Busy k (Posted r (m # ms)) rest acc)"
    by (auto simp: inv_workers_def dest!: spec [of _ i])
  then have "worker_ok B (Busy k (Posted r ms) rest acc)" by simp
  with print assms(1) show ?thesis
    by (auto simp: inv_workers_def nth_list_update)
next
  case (return_last k r acc)
  with assms(1) show ?thesis by (auto simp: inv_workers_def nth_list_update)
next
  case (return_next k r c cs acc)
  with assms(1) have o: "worker_ok B (Busy k (Posted r []) (c # cs) acc)"
    by (auto simp: inv_workers_def dest!: spec [of _ i])
  define xs where "xs = B ! k"
  define n where "n = length acc"
  from o have k: "k < length B" and l: "n < length xs" and d: "c # cs = drop (Suc n) xs"
    and a: "map fst acc = map (\<lambda>c. length (fst c)) (take n xs)"
    and r: "fst r = length (fst (xs ! n))"
    by (simp_all add: xs_def n_def)
  from d have l': "Suc n < length xs"
    by (metis drop_eq_Nil2 list.distinct(1) not_le_imp_less)
  from d l' have c: "c = xs ! Suc n" and cs: "cs = drop (Suc (Suc n)) xs"
    by (metis Cons_nth_drop_Suc list.inject)+
  have t: "take (Suc n) xs = take n xs @ [xs ! n]"
    using l by (rule take_Suc_conv_app_nth)
  have "worker_ok B (Busy k (Called c) cs (acc @ [r]))"
    using k l' c cs a r t by (simp add: xs_def [symmetric] n_def [symmetric] del: take_Suc)
  with return_next assms(1) show ?thesis
    by (auto simp: inv_workers_def nth_list_update)
qed

lemma inv_out_step:
  assumes "inv_out B st" and "inv_queue B st" and "inv_workers B st" and "known_batches B"
  shows "inv_out B (fst (worker_step net i (st, w)))"
proof (cases rule: worker_step_cases [of st i net w])
  case skip
  with assms show ?thesis by simp
next
  case (take_empty k q)
  with assms(2) have "k < length B" "B ! k = []" by (auto simp: inv_queue_def)
  with take_empty assms(1) show ?thesis by (auto simp: inv_out_def)
next
  case (take k c cs q)
  with assms(1) show ?thesis by (simp add: inv_out_def)
next
  case (post k ls h b rest acc url)
  with assms(1) show ?thesis by (simp add: inv_out_def)
next
  case (raise k ls h b rest acc e)
  with no_raise [OF assms(3,4)] show ?thesis by blast
next
  case (print k r m ms rest acc)
  with assms(1) show ?thesis by (simp add: inv_out_def)
next
  case (return_last k r acc)
  with assms(3) have o: "worker_ok B (Busy k (Posted r []) [] acc)"
    by (auto simp: inv_workers_def dest!: spec [of _ i])
  define xs where "xs = B ! k"
  define n where "n = length acc"
  from o have k: "k < length B" and l: "n < length xs" and d: "[] = drop (Suc n) xs"
    and a: "map fst acc = map (\<lambda>c. length (fst c)) (take n xs)"
    and r: "fst r = length (fst (xs ! n))"
    by (simp_all add: xs_def n_def)
  from d l have "length xs = Suc n" by simp
  then have "xs = take n xs @ [xs ! n]"
    using take_Suc_conv_app_nth [OF l] by (metis order_refl take_all)
  then have "map (\<lambda>c. length (fst c)) xs = map fst (acc @ [r])"
    using a r by (metis (no_types, lifting) list.simps(8,9) map_append)
  with return_last assms(1) k show ?thesis
    by (auto simp: inv_out_def xs_def)
next
  case (return_next k r c cs acc)
  with assms(1) show ?thesis by (simp add: inv_out_def)
qed

lemma inv_cover_update:
  assumes "inv_cover B st"
    and "\<And>k. k \<in> fst ` set (inqueue st) \<Longrightarrow> k \<in> fst ` set (inqueue st')
        \<or> (\<exists>j<length (procs st'). batch_of (procs st' ! j) = Some k) \<or> k \<in> fst ` set (outqueue st')"
    and "\<And>j k. j < length (procs st) \<Longrightarrow> batch_of (procs st ! j) = Some k \<Longrightarrow>
        (\<exists>j<length (procs st'). batch_of (procs st' ! j) = Some k) \<or> k \<in> fst ` set (outqueue st')"
    and "set (outqueue st) \<subseteq> set (outqueue st')"
  shows "inv_cover B st'"
  unfolding inv_cover_def
proof (intro allI impI)
  fix k assume "k < length B"
  with assms(1) have "k \<in> fst ` set (inqueue st)
      \<or> (\<exists>j<length (procs st). batch_of (procs st ! j) = Some k) \<or> k \<in> fst ` set (outqueue st)"
    by (simp add: inv_cover_def)
  then consider "k \<in> fst ` set (inqueue st)"
    | j where "j < length (procs st)" "batch_of (procs st ! j) = Some k"
    | "k \<in> fst ` set (outqueue st)"
    by blast
  then show "k \<in> fst ` set (inqueue st')
      \<or> (\<exists>j<length (procs st'). batch_of (procs st' ! j) = Some k) \<or> k \<in> fst ` set (outqueue st')"
  proof cases
    case 1
    then show ?thesis by (rule assms(2))
  next
    case 2
    with assms(3) [of j k] show ?thesis by blast
  next
    case 3
    with assms(4) show ?thesis by blast
  qed
qed

lemma batch_of_update:
  assumes "i < length ps" and "j < length ps" and "batch_of (ps ! j) = Some k"
    and "batch_of (ps ! i) = batch_of p"
  shows "\<exists>j<length (ps[i := p]). batch_of (ps[i := p] ! j) = Some k"
  using assms by (intro exI [of _ j]) (auto simp: nth_list_update)

lemma inv_cover_step:
  assumes "inv_cover B st"
  shows "inv_cover B (fst (worker_step net i (st, w)))"
proof (cases rule: worker_step_cases [of st i net w])
  case skip
  with assms show ?thesis by simp
next
  case (take_empty k q)
  with assms show ?thesis by (auto simp: inv_cover_def)
next
  case (take k c cs q)
  show ?thesis
  proof (rule inv_cover_update [OF assms])
    fix k' assume "k' \<in> fst ` set (inqueue st)"
    with take have "k' = k \<or> k' \<in> fst ` set q" by auto
    with take show "k' \<in> fst ` set (inqueue (fst (worker_step net i (st, w))))
        \<or> (\<exists>j<length (procs (fst (worker_step net i (st, w)))).
              batch_of (procs (fst (worker_step net i (st, w))) ! j) = Some k')
        \<or> k' \<in> fst ` set (outqueue (fst (worker_step net i (st, w))))"
      by (auto intro!: exI [of _ i])
  next
    fix j k' assume j: "j < length (procs st)" "batch_of (procs st ! j) = Some k'"
    with take have "j \<noteq> i" by auto
    with j take show "(\<exists>j<length (procs (fst (worker_step net i (st, w)))).
              batch_of (procs (fst (worker_step net i (st, w))) ! j) = Some k')
        \<or> k' \<in> fst ` set (outqueue (fst (worker_step net i (st, w))))"
      by (auto simp: nth_list_update intro!: exI [of _ j])
  next
    from take show "set (outqueue st) \<subseteq> set (outqueue (fst (worker_step net i (st, w))))"
      by simp
  qed
next
  case (post k ls h b rest acc url)
  show ?thesis
  proof (rule inv_cover_update [OF assms])
    fix j k' assume j: "j < length (procs st)" "batch_of (procs st ! j) = Some k'"
    from batch_of_update [OF post(1) j, of "Busy k
            (Posted (length ls, snd (net (requests w) url (join [NL] ls @ [NL])))
              (chunk_report (length ls) (net (requests w) url (join [NL] ls @ [NL])))) rest acc"] post
    show "(\<exists>j<length (procs (fst (worker_step net i (st, w)))).
              batch_of (procs (fst (worker_step net i (st, w))) ! j) = Some k')
        \<or> k' \<in> fst ` set (outqueue (fst (worker_step net i (st, w))))"
      by simp
  qed (use post in simp_all)
next
  case (raise k ls h b rest acc e)
  show ?thesis
  proof (rule inv_cover_update [OF assms])
    fix j k' assume j: "j < length (procs st)" "batch_of (procs st ! j) = Some k'"
    show "(\<exists>j<length (procs (fst (worker_step net i (st, w)))).
              batch_of (procs (fst (worker_step net i (st, w))) ! j) = Some k')
        \<or> k' \<in> fst ` set (outqueue (fst (worker_step net i (st, w))))"
    proof (cases "j = i")
      case True
      with j raise show ?thesis by simp
    next
      case False
      with j raise show ?thesis by (auto simp: nth_list_update intro!: exI [of _ j])
    qed
  qed (use raise in auto)
next
  case (print k r m ms rest acc)
  show ?thesis
  proof (rule inv_cover_update [OF assms])
    fix j k' assume j: "j < length (procs st)" "batch_of (procs st ! j) = Some k'"
    from batch_of_update [OF print(1) j, of "Busy k (Posted r ms) rest acc"] print
    show "(\<exists>j<length (procs (fst (worker_step net i (st, w)))).
              batch_of (procs (fst (worker_step net i (st, w))) ! j) = Some k')
        \<or> k' \<in> fst ` set (outqueue (fst (worker_step net i (st, w))))"
      by simp
  qed (use print in simp_all)
next
  case (return_last k r acc)
  show ?thesis
  proof (rule inv_cover_update [OF assms])
    fix j k' assume j: "j < length (procs st)" "batch_of (procs st ! j) = Some k'"
    show "(\<exists>j<length (procs (fst (worker_step net i (st, w)))).
              batch_of (procs (fst (worker_step net i (st, w))) ! j) = Some k')
        \<or> k' \<in> fst ` set (outqueue (fst (worker_step net i (st, w))))"
    proof (cases "j = i")
      case True
      with j return_last show ?thesis by simp
    next
      case False
      with j return_last show ?thesis by (auto simp: nth_list_update intro!: exI [of _ j])
    qed
  qed (use return_last in auto)
next
  case (return_next k r c cs acc)
  show ?thesis
  proof (rule inv_cover_update [OF assms])
    fix j k' assume j: "j < length (procs st)" "batch_of (procs st ! j) = Some k'"
    from batch_of_update [OF return_next(1) j, of "Busy k (Called c) cs (acc @ [r])"] return_next
    show "(\<exists>j<length (procs (fst (worker_step net i (st, w)))).
              batch_of (procs (fst (worker_step net i (st, w))) ! j) = Some k')
        \<or> k' \<in> fst ` set (outqueue (fst (worker_step net i (st, w))))"
      by simp
  qed (use return_next in simp_all)
qed

lemma todo_procs_update:
  assumes "i < length (procs st)"
  shows "todo (st\<lparr>procs := (procs st)[i := p]\<rparr>) + mset (worker_todo (procs st ! i)) =
     todo st + mset (worker_todo p)"
  using sum_list_map_update [OF assms, of "\<lambda>p. mset (worker_todo p)" p]
  by (simp add: todo_def ac_simps)

lemma todo_outqueue: "todo (st\<lparr>outqueue := x\<rparr>) = todo st"
  by (simp add: todo_def)

lemma todo_inqueue: "inqueue st = (k, b) # q \<Longrightarrow> todo (st\<lparr>inqueue := q\<rparr>) + mset b = todo st"
  by (simp add: todo_def)

lemma inv_world_step:
  assumes "inv_world cs w0 (st, w)" and "inv_workers B st" and "known_batches B"
  shows "inv_world cs w0 (worker_step net i (st, w))"
proof -
  from assms(1) obtain posted ms where
    r: "requests w = requests w0 @ map request_of posted" and
    c: "console w = console w0 @ ms" and
    t: "mset posted + todo st = mset cs"
    by (auto simp: inv_world_def)
  show ?thesis
  proof (cases rule: worker_step_cases [of st i net w])
    case skip
    with assms(1) show ?thesis by simp
  next
    case (take_empty k q)
    from todo_inqueue [OF take_empty(3)] have "todo (st\<lparr>inqueue := q\<rparr>) = todo st" by simp
    then have "todo (st\<lparr>inqueue := q, outqueue := outqueue st @ [(k, Inr [])]\<rparr>) = todo st"
      by (simp add: todo_def)
    with r c t take_empty show ?thesis
      unfolding inv_world_def by auto
  next
    case (take k c' cs' q)
    from todo_procs_update [of i "st\<lparr>inqueue := q\<rparr>" "Busy k (Called c') cs' []"] take
    have "todo (st\<lparr>inqueue := q, procs := (procs st)[i := Busy k (Called c') cs' []]\<rparr>) =
        todo (st\<lparr>inqueue := q\<rparr>) + mset (c' # cs')"
      by simp
    with todo_inqueue [OF take(3)]
    have "todo (st\<lparr>inqueue := q, procs := (procs st)[i := Busy k (Called c') cs' []]\<rparr>) = todo st"
      by simp
    with r c t take show ?thesis
      unfolding inv_world_def by auto
  next
    case (post k ls h b rest acc url)
    define p where "p = Busy k
            (Posted (length ls, snd (net (requests w) url (join [NL] ls @ [NL])))
              (chunk_report (length ls) (net (requests w) url (join [NL] ls @ [NL])))) rest acc"
    from todo_procs_update [OF post(1), of p] post(2)
    have e: "todo st = add_mset (ls, h, b) (todo (st\<lparr>procs := (procs st)[i := p]\<rparr>))"
      by (simp add: p_def)
    have t': "mset (posted @ [(ls, h, b)]) + todo (st\<lparr>procs := (procs st)[i := p]\<rparr>) = mset cs"
      using t unfolding e by simp
    have r': "requests w @ [(url, join [NL] ls @ [NL])] =
        requests w0 @ map request_of (posted @ [(ls, h, b)])"
      by (simp add: r request_of_known [OF post(3)])
    have "inv_world cs w0 (st\<lparr>procs := (procs st)[i := p]\<rparr>,
        w\<lparr>requests := requests w @ [(url, join [NL] ls @ [NL])]\<rparr>)"
      unfolding inv_world_def using r' c t' by (intro exI [of _ "posted @ [(ls, h, b)]"] exI [of _ ms]) simp
    with post(4) show ?thesis by (simp add: p_def)
  next
    case (raise k ls h b rest acc e)
    with no_raise [OF assms(2,3)] show ?thesis by blast
  next
    case (print k r' m ms' rest acc)
    from todo_procs_update [OF print(1), of "Busy k (Posted r' ms') rest acc"] print(2)
    have "todo (st\<lparr>procs := (procs st)[i := Busy k (Posted r' ms') rest acc]\<rparr>) = todo st"
      by simp
    with r c t have "inv_world cs w0 (st\<lparr>procs := (procs st)[i := Busy k (Posted r' ms') rest acc]\<rparr>,
        w\<lparr>console := console w @ [m]\<rparr>)"
      unfolding inv_world_def by (intro exI [of _ posted] exI [of _ "ms @ [m]"]) simp
    with print(3) show ?thesis by simp
  next
    case (return_last k r' acc)
    from todo_procs_update [OF return_last(1), of Idle] return_last(2)
    have "todo (st\<lparr>procs := (procs st)[i := Idle]\<rparr>) = todo st"
      by simp
    then have "todo (st\<lparr>procs := (procs st)[i := Idle], outqueue := outqueue st @ [(k, Inr (acc @ [r']))]\<rparr>) = todo st"
      by (simp add: todo_def)
    with r c t return_last show ?thesis
      unfolding inv_world_def by auto
  next
    case (return_next k r' c' cs' acc)
    from todo_procs_update [OF return_next(1), of "Busy k (Called c') cs' (acc @ [r'])"] return_next(2)
    have "todo (st\<lparr>procs := (procs st)[i := Busy k (Called c') cs' (acc @ [r'])]\<rparr>) = todo st"
      by simp
    with r c t return_next show ?thesis
      unfolding inv_world_def by auto
  qed
qed

lemma pool_inv_step:
  assumes "pool_inv B cs w0 sw" and "known_batches B"
  shows "pool_inv B cs w0 (worker_step net i sw)"
proof -
  obtain st w where sw: "sw = (st, w)" by (cases sw)
  from assms(1) have a: "inv_world cs w0 (st, w)" "inv_queue B st" "inv_workers B st" "inv_out B st"
    "inv_cover B st"
    by (simp_all add: pool_inv_def sw)
  show ?thesis unfolding pool_inv_def sw
    by (intro conjI inv_world_step [OF a(1,3) assms(2)] inv_queue_step [OF a(2)]
        inv_workers_step [OF a(3,2)] inv_out_step [OF a(4,2,3) assms(2)] inv_cover_step [OF a(5)])
qed

lemma pool_inv_fold:
  assumes "pool_inv B cs w0 sw" and "known_batches B"
  shows "pool_inv B cs w0 (fold (worker_step net) sched sw)"
  using assms(1)
proof (induction sched arbitrary: sw)
  case (Cons i sched)
  from Cons.IH [OF pool_inv_step [OF Cons.prems assms(2)]] show ?case by simp
qed simp

lemma todo_initial:
  "todo \<lparr>inqueue = enumerate 0 B, procs = replicate n Idle, outqueue = []\<rparr> = mset (concat B)"
proof -
  have m: "map snd (enumerate 0 B) = B" by (rule map_snd_enumerate)
  have a: "sum_list (map (\<lambda>kb. mset (snd kb)) xs) = sum_list (map mset (map snd xs))"
    for xs :: "(nat \<times> chunk_args list) list"
    by (induction xs) simp_all
  have "sum_list (map (\<lambda>kb. mset (snd kb)) (enumerate 0 B)) = mset (concat B)"
    by (simp only: a m mset_concat)
  moreover have "sum_list (map (\<lambda>p. mset (worker_todo p)) (replicate n Idle)) = {#}"
    by (induction n) simp_all
  ultimately show ?thesis by (simp add: todo_def)
qed

lemma pool_inv_initial:
  assumes "concat B = cs"
  shows "pool_inv B cs w (\<lparr>inqueue = enumerate 0 B, procs = replicate n Idle, outqueue = []\<rparr>, w)"
proof -
  have 1: "inv_world cs w (\<lparr>inqueue = enumerate 0 B, procs = replicate n Idle, outqueue = []\<rparr>, w)"
    unfolding inv_world_def using todo_initial [of B n] assms
    by (intro exI [of _ "[]"]) simp
  have 2: "inv_queue B \<lparr>inqueue = enumerate 0 B, procs = replicate n Idle, outqueue = []\<rparr>"
    by (auto simp: inv_queue_def in_set_enumerate_eq)
  have 3: "inv_workers B \<lparr>inqueue = enumerate 0 B, procs = replicate n Idle, outqueue = []\<rparr>"
    by (simp add: inv_workers_def)
  have 4: "inv_out B \<lparr>inqueue = enumerate 0 B, procs = replicate n Idle, outqueue = []\<rparr>"
    by (simp add: inv_out_def)
  have "fst ` set (enumerate 0 B) = {0..<length B}"
    using map_fst_enumerate [of 0 B] by (metis add_0 set_map set_upt)
  then have 5: "inv_cover B \<lparr>inqueue = enumerate 0 B, procs = replicate n Idle, outqueue = []\<rparr>"
    by (simp add: inv_cover_def)
  show ?thesis unfolding pool_inv_def using 1 2 3 4 5 by simp
qed

lemma inv_order_step:
  assumes "inv_order cs w0 (st, w)" and "length (procs st) = 1" and "inv_workers B st"
    and "known_batches B"
  shows "inv_order cs w0 (worker_step net i (st, w))"
proof -
  from assms(1) obtain posted where
    r: "requests w = requests w0 @ map request_of posted" and
    t: "posted @ worker_todo (procs st ! 0) @ concat (map snd (inqueue st)) = cs"
    by (auto simp: inv_order_def)
  show ?thesis
  proof (cases rule: worker_step_cases [of st i net w])
    case skip
    with assms(1) show ?thesis by simp
  next
    case (take_empty k q)
    with r t show ?thesis unfolding inv_order_def by auto
  next
    case (take k c' cs' q)
    with assms(2) have "i = 0" by simp
    with r t take show ?thesis unfolding inv_order_def by auto
  next
    case (post k ls h b rest acc url)
    with assms(2) have i: "i = 0" by simp
    have "requests w @ [(url, join [NL] ls @ [NL])] =
        requests w0 @ map request_of (posted @ [(ls, h, b)])"
      by (simp add: r request_of_known [OF post(3)])
    moreover have "(posted @ [(ls, h, b)]) @ rest @ concat (map snd (inqueue st)) = cs"
      using t post(2) i by simp
    ultimately show ?thesis
      unfolding inv_order_def post(4) using post(1) i
      by (intro exI [of _ "posted @ [(ls, h, b)]"]) simp
  next
    case (raise k ls h b rest acc e)
    with no_raise [OF assms(3,4)] show ?thesis by blast
  next
    case (print k r' m ms' rest acc)
    with assms(2) have "i = 0" by simp
    with r t print show ?thesis unfolding inv_order_def by auto
  next
    case (return_last k r' acc)
    with assms(2) have "i = 0" by simp
    with r t return_last show ?thesis unfolding inv_order_def by auto
  next
    case (return_next k r' c' cs' acc)
    with assms(2) have "i = 0" by simp
    with r t return_next show ?thesis unfolding inv_order_def by auto
  qed
qed

lemma inv_order_fold:
  assumes "inv_order cs w0 sw" and "length (procs (fst sw)) = 1" and "inv_workers B (fst sw)"
    and "inv_queue B (fst sw)" and "known_batches B"
  shows "inv_order cs w0 (fold (worker_step net) sched sw)"
  using assms(1-4)
proof (induction sched arbitrary: sw)
  case (Cons i sched)
  obtain st w where sw: "sw = (st, w)" by (cases sw)
  from Cons.prems have a: "inv_order cs w0 (st, w)" "length (procs st) = 1" "inv_workers B st"
    "inv_queue B st"
    by (simp_all add: sw)
  have "inv_order cs w0 (fold (worker_step net) sched (worker_step net i (st, w)))"
    by (rule Cons.IH [OF inv_order_step [OF a(1-3) assms(5)]])
      (simp_all add: worker_step_length a(2) inv_workers_step [OF a(3,4)] inv_queue_step [OF a(4)])
  then show ?case by (simp add: sw)
qed simp

lemma inv_order_initial:
  assumes "concat B = cs"
  shows "inv_order cs w (\<lparr>inqueue = enumerate 0 B, procs = [Idle], outqueue = []\<rparr>, w)"
  unfolding inv_order_def using assms
  by (intro exI [of _ "[]"]) (simp add: map_snd_enumerate)

section \<open>The result of the pool\<close>

text \<open>
  When the pool has finished, every batch has its outcome and no chunk is left to do.
\<close>

lemma first_failure_none:
  "(\<And>ko. ko \<in> set outs \<Longrightarrow> \<exists>rs. snd ko = Inr rs) \<Longrightarrow> first_failure outs = None"
proof (induction outs rule: first_failure.induct)
  case (2 k e outs)
  from 2(1) [of "(k, Inl e)"] show ?case by simp
qed simp_all

lemma batch_value_out:
  assumes "inv_out B st" and "k \<in> fst ` set (outqueue st)"
  shows "map fst (batch_value (outqueue st) k) = map (\<lambda>c. length (fst c)) (B ! k)"
proof -
  from assms(2) obtain y where y: "map_of (outqueue st) k = Some y"
    by (metis map_of_eq_None_iff not_Some_eq)
  then have "(k, y) \<in> set (outqueue st)" by (rule map_of_SomeD)
  with assms(1) obtain rs where "y = Inr rs" "map fst rs = map (\<lambda>c. length (fst c)) (B ! k)"
    by (auto simp: inv_out_def)
  with y show ?thesis by (simp add: batch_value_def)
qed

lemma finished_cover:
  assumes "finished st" and "inv_cover B st" and "k < length B"
  shows "k \<in> fst ` set (outqueue st)"
proof -
  from assms(1) have q: "inqueue st = []" and i: "\<And>j. j < length (procs st) \<Longrightarrow> procs st ! j = Idle"
    by (simp_all add: finished_def list_all_length)
  from assms(2,3) have "k \<in> fst ` set (inqueue st)
      \<or> (\<exists>j<length (procs st). batch_of (procs st ! j) = Some k) \<or> k \<in> fst ` set (outqueue st)"
    by (simp add: inv_cover_def)
  with q i show ?thesis by auto
qed

lemma sum_list_all_empty:
  "(\<And>p. p \<in> set ps \<Longrightarrow> f p = {#}) \<Longrightarrow> sum_list (map f ps) = {#}"
  by (induction ps) simp_all

lemma finished_todo: "finished st \<Longrightarrow> todo st = {#}"
  by (auto simp: finished_def todo_def list_all_iff intro!: sum_list_all_empty)

lemma finished_results:
  assumes "finished st" and "inv_out B st" and "inv_cover B st"
  shows "\<exists>rs. map_result (length B) (outqueue st) = Inr rs
     \<and> map fst rs = map (\<lambda>c. length (fst c)) (concat B)"
proof -
  have "\<exists>rs. snd ko = Inr rs" if "ko \<in> set (outqueue st)" for ko
    using assms(2) that by (auto simp: inv_out_def)
  then have f: "first_failure (outqueue st) = None" by (rule first_failure_none)
  have "map (\<lambda>k. map fst (batch_value (outqueue st) k)) [0..<length B] =
      map (\<lambda>k. map (\<lambda>c. length (fst c)) (B ! k)) [0..<length B]"
    by (rule map_cong [OF refl])
      (simp add: batch_value_out [OF assms(2) finished_cover [OF assms(1,3)]])
  also have "\<dots> = map (map (\<lambda>c. length (fst c))) (map (\<lambda>k. B ! k) [0..<length B])"
    by (simp add: comp_def)
  also have "\<dots> = map (map (\<lambda>c. length (fst c))) B"
    by (simp only: map_nth)
  finally have "map fst (concat (map (batch_value (outqueue st)) [0..<length B])) =
      map (\<lambda>c. length (fst c)) (concat B)"
    by (simp add: map_concat comp_def)
  with f show ?thesis by (simp add: map_result_def)
qed

lemma map_chunksize_pos: "0 < len \<Longrightarrow> 0 < n \<Longrightarrow> 0 < map_chunksize len n"
  by (auto simp: map_chunksize_def div_greater_zero_iff mod_eq_0_iff_dvd dest!: dvd_imp_le [of "n * 4" len])

lemma batches_concat: "0 < n \<Longrightarrow> concat (split_every (map_chunksize (length cs) n) cs) = cs"
  by (cases "cs = []") (simp_all add: split_every_Nil split_every_concat map_chunksize_pos)

lemma world_eq: "(w' :: world) = w\<lparr>requests := requests w', console := console w'\<rparr>"
  by (cases w, cases w') simp

lemma pool_map_known:
  assumes "1 \<le> W" and "\<forall>c\<in>set cs. known_backend (snd (snd c))"
  shows "\<exists>rs new ms. pool_map W sched net cs w =
       (Inr rs, w\<lparr>requests := requests w @ new, console := console w @ ms\<rparr>)
     \<and> map fst rs = map (\<lambda>c. length (fst c)) cs
     \<and> mset new = mset (map request_of cs)
     \<and> (W = 1 \<longrightarrow> new = map request_of cs)"
proof -
  define n where "n = nat W"
  define B where "B = split_every (map_chunksize (length cs) n) cs"
  define st0 where "st0 = \<lparr>inqueue = enumerate 0 B, procs = replicate n Idle, outqueue = []\<rparr>"
  define sw where "sw = fold (worker_step net) (sched @ concat (replicate (work st0) [0..<n])) (st0, w)"
  from assms(1) have n: "0 < n" by (simp add: n_def)
  have cB: "concat B = cs" unfolding B_def by (rule batches_concat [OF n])
  have kB: "known_batches B"
    unfolding known_batches_def
  proof (intro ballI)
    fix b c assume "b \<in> set B" "c \<in> set b"
    then have "c \<in> set (concat B)" by auto
    with assms(2) cB show "known_backend (snd (snd c))" by simp
  qed
  have fin: "finished (fst sw)"
    unfolding sw_def by (rule schedule_finishes [OF _ n]) (simp add: st0_def)
  have "pool_inv B cs w (st0, w)"
    unfolding st0_def by (rule pool_inv_initial [OF cB])
  then have inv: "pool_inv B cs w sw"
    unfolding sw_def by (rule pool_inv_fold [OF _ kB])
  then obtain posted ms where
    r: "requests (snd sw) = requests w @ map request_of posted" and
    c: "console (snd sw) = console w @ ms" and
    t: "mset posted + todo (fst sw) = mset cs"
    by (auto simp: pool_inv_def inv_world_def)
  from t finished_todo [OF fin] have p: "mset posted = mset cs" by simp
  from inv have "inv_out B (fst sw)" "inv_cover B (fst sw)" by (simp_all add: pool_inv_def)
  from finished_results [OF fin this] cB obtain rs where
    rs: "map_result (length B) (outqueue (fst sw)) = Inr rs"
      "map fst rs = map (\<lambda>c. length (fst c)) cs"
    by auto
  have "pool_map W sched net cs w =
      (case sw of (st, w') \<Rightarrow> (map_result (length B) (outqueue st), w'))"
    unfolding pool_map_def sw_def st0_def B_def n_def Let_def using assms(1) by simp
  also have "\<dots> = (map_result (length B) (outqueue (fst sw)), snd sw)"
    by (simp add: split_beta)
  also have "\<dots> = (Inr rs, w\<lparr>requests := requests w @ map request_of posted, console := console w @ ms\<rparr>)"
    using world_eq [of "snd sw" w] by (simp add: rs r c)
  finally have "pool_map W sched net cs w =
      (Inr rs, w\<lparr>requests := requests w @ map request_of posted, console := console w @ ms\<rparr>)" .
  moreover have "mset (map request_of posted) = mset (map request_of cs)"
    using p by (metis mset_map)
  moreover have "W = 1 \<longrightarrow> map request_of posted = map request_of cs"
  proof
    assume "W = 1"
    then have n1: "replicate n Idle = [Idle]" by (simp add: n_def)
    from inv have i0: "inv_workers B st0" "inv_queue B st0"
      using pool_inv_initial [OF cB, of w n] by (simp_all add: pool_inv_def st0_def)
    have "inv_order cs w (st0, w)"
      unfolding st0_def n1 by (rule inv_order_initial [OF cB])
    then have "inv_order cs w sw"
      unfolding sw_def using i0 by (intro inv_order_fold [OF _ _ _ _ kB]) (simp_all add: st0_def n1)
    then obtain posted' where
      r': "requests (snd sw) = requests w @ map request_of posted'" and
      t': "posted' @ worker_todo (procs (fst sw) ! 0) @ concat (map snd (inqueue (fst sw))) = cs"
      by (auto simp: inv_order_def)
    have l1: "length (procs (fst sw)) = 1"
      unfolding sw_def by (simp add: fold_length st0_def n1)
    with fin have "procs (fst sw) ! 0 = Idle" "inqueue (fst sw) = []"
      by (simp_all add: finished_def list_all_length)
    with t' have "posted' = cs" by simp
    with r r' show "map request_of posted = map request_of cs" by simp
  qed
  ultimately show ?thesis using rs(2) by blast
qed

lemma main_returns:
  assumes b: "known_backend (backend a)" and f: "fs (file_name a) = Inr f" and p: "1 \<le> workers a"
  shows "\<exists>new ms t. main fs net wall_time sched a w =
     (Returned,
      w\<lparr>requests := requests w @ new,
        console := console w @ (Stdout, Dividing) # ms @
          [(Stdout, TotalRows (length f)), (Stdout, TotalRequestTime t), (Stdout, TotalWallTime wall_time)]\<rparr>)
     \<and> mset new = mset (map request_of (chunk_loop a f [] []))"
proof -
  define cs where "cs = chunk_loop a f [] []"
  define w0 where "w0 = print Stdout Dividing w"
  have "list_all (\<lambda>c. snd (snd c) = backend a) cs"
    unfolding cs_def by (rule chunk_loop_backend) simp
  with b have "\<forall>c\<in>set cs. known_backend (snd (snd c))"
    by (simp add: list_all_iff)
  from pool_map_known [OF p this, of sched net w0] obtain rs new ms where
    r: "pool_map (workers a) sched net cs w0 =
       (Inr rs, w0\<lparr>requests := requests w0 @ new, console := console w0 @ ms\<rparr>)"
    and l: "map fst rs = map (\<lambda>c. length (fst c)) cs"
    and m: "mset new = mset (map request_of cs)"
    by blast
  have rows: "sum_list (map fst rs) = length f"
    using chunk_loop_rows [of a f "[]" "[]"] by (simp add: l cs_def)
  have rc: "read_chunks fs a = Inr cs"
    by (simp add: read_chunks_def f cs_def)
  have nb: "\<not> (backend a \<notin> set [''questdb'', ''influxdb''])"
    using b by (simp add: known_backend_def)
  have "main fs net wall_time sched a w =
     (Returned,
      w\<lparr>requests := requests w @ new,
        console := console w @ (Stdout, Dividing) # ms @
          [(Stdout, TotalRows (length f)), (Stdout, TotalRequestTime (sum_list (map snd rs))),
           (Stdout, TotalWallTime wall_time)]\<rparr>)"
    unfolding main_def if_not_P [OF nb] Let_def w0_def [symmetric] rc sum.case r prod.case
      aggregate_sums
    by (simp add: rows w0_def print_def)
  with m show ?thesis unfolding cs_def by blast
qed


section \<open>The runs of main\<close>

lemma mset_single_list: "mset xs = mset [x] \<Longrightarrow> xs = [x]"
  by (cases xs) auto

text \<open>
  C8. A run whose backend is neither "questdb" nor "influxdb" ends in the argument
  parser, with exit status 2 and one usage error on the standard error: the file is
  not read, no request is issued and no chunk is sent.
\<close>

theorem unknown_backend_exits_before_network:
  assumes "backend a \<noteq> ''questdb''" and "backend a \<noteq> ''influxdb''"
  shows "main fs net wall_time sched a w =
      (Exit 2, w\<lparr>console := console w @ [(Stderr, InvalidChoice (backend a))]\<rparr>)
    \<and> requests (snd (main fs net wall_time sched a w)) = requests w"
  using assms by (simp add: main_def print_def)

theorem unknown_backend_exits_before_network_witness:
  "backend (demo_args\<lparr>backend := ''mysql''\<rparr>) \<noteq> ''questdb''
   \<and> backend (demo_args\<lparr>backend := ''mysql''\<rparr>) \<noteq> ''influxdb''
   \<and> (main demo_fs accepting_net 1 [1, 0] (demo_args\<lparr>backend := ''mysql''\<rparr>) empty_world =
      (Exit 2, empty_world\<lparr>console := console empty_world @
          [(Stderr, InvalidChoice (backend (demo_args\<lparr>backend := ''mysql''\<rparr>)))]\<rparr>)
    \<and> requests (snd (main demo_fs accepting_net 1 [1, 0] (demo_args\<lparr>backend := ''mysql''\<rparr>) empty_world)) =
        requests empty_world)"
proof -
  have h1: "backend (demo_args\<lparr>backend := ''mysql''\<rparr>) \<noteq> ''questdb''" by simp
  have h2: "backend (demo_args\<lparr>backend := ''mysql''\<rparr>) \<noteq> ''influxdb''" by simp
  note t = unknown_backend_exits_before_network [OF h1 h2, of demo_fs accepting_net 1 "[1, 0]" empty_world]
  show ?thesis by (intro conjI h1 h2 t)
qed



text \<open>
  C6. The total of rows is the sum of the row counts of the results; the row count
  of a result is the number of lines of the chunk whatever the outcome of the request
  (a failed send counts its attempted rows); hence for a file of ten lines and chunks
  of three lines the run reports ten rows, whatever the network does and however the
  workers are scheduled.
\<close>

theorem total_rows_sum_of_attempted_rows:
  "fst (aggregate rs 0 0) = sum_list (map fst rs)
   \<and> (get_endpoint h b = Inr url \<longrightarrow>
        fst (send_chunk net ls h b w) = Inr (length ls, snd (net (requests w) url (join [NL] ls @ [NL]))))
   \<and> (length f = 10 \<and> chunk_size a = 3 \<and> 1 \<le> workers a
        \<and> (backend a = ''questdb'' \<or> backend a = ''influxdb'') \<and> fs (file_name a) = Inr f \<longrightarrow>
        (\<exists>ms t. fst (main fs net wall_time sched a w) = Returned
           \<and> console (snd (main fs net wall_time sched a w)) =
               console w @ (Stdout, Dividing) # ms @
                 [(Stdout, TotalRows 10), (Stdout, TotalRequestTime t), (Stdout, TotalWallTime wall_time)]))"
proof -
  have a: "fst (aggregate rs 0 0) = sum_list (map fst rs)"
    by (simp add: aggregate_sums)
  have b: "get_endpoint h b = Inr url \<longrightarrow>
        fst (send_chunk net ls h b w) = Inr (length ls, snd (net (requests w) url (join [NL] ls @ [NL])))"
    by (simp add: send_chunk_valid)
  have c: "length f = 10 \<and> chunk_size a = 3 \<and> 1 \<le> workers a
        \<and> (backend a = ''questdb'' \<or> backend a = ''influxdb'') \<and> fs (file_name a) = Inr f \<longrightarrow>
        (\<exists>ms t. fst (main fs net wall_time sched a w) = Returned
           \<and> console (snd (main fs net wall_time sched a w)) =
               console w @ (Stdout, Dividing) # ms @
                 [(Stdout, TotalRows 10), (Stdout, TotalRequestTime t), (Stdout, TotalWallTime wall_time)])"
  proof
    assume h: "length f = 10 \<and> chunk_size a = 3 \<and> 1 \<le> workers a
        \<and> (backend a = ''questdb'' \<or> backend a = ''influxdb'') \<and> fs (file_name a) = Inr f"
    then have k: "known_backend (backend a)" by (simp add: known_backend_iff)
    from h have f: "fs (file_name a) = Inr f" and p: "1 \<le> workers a" and l: "length f = 10"
      by simp_all
    from main_returns [where a = a and fs = fs and f = f and net = net and wall_time = wall_time
        and sched = sched and w = w, OF k f p] obtain new ms t where
      m: "main fs net wall_time sched a w =
     (Returned,
      w\<lparr>requests := requests w @ new,
        console := console w @ (Stdout, Dividing) # ms @
          [(Stdout, TotalRows (length f)), (Stdout, TotalRequestTime t), (Stdout, TotalWallTime wall_time)]\<rparr>)"
      by blast
    have "fst (main fs net wall_time sched a w) = Returned
           \<and> console (snd (main fs net wall_time sched a w)) =
               console w @ (Stdout, Dividing) # ms @
                 [(Stdout, TotalRows 10), (Stdout, TotalRequestTime t), (Stdout, TotalWallTime wall_time)]"
      unfolding m by (simp add: l)
    then show "\<exists>ms t. fst (main fs net wall_time sched a w) = Returned
           \<and> console (snd (main fs net wall_time sched a w)) =
               console w @ (Stdout, Dividing) # ms @
                 [(Stdout, TotalRows 10), (Stdout, TotalRequestTime t), (Stdout, TotalWallTime wall_time)]"
      by blast
  qed
  show ?thesis by (rule conjI [OF a conjI [OF b c]])
qed

theorem total_rows_sum_of_attempted_rows_witness:
  "(length ten_lines = 10 \<and> chunk_size demo_args = 3 \<and> 1 \<le> workers demo_args
        \<and> (backend demo_args = ''questdb'' \<or> backend demo_args = ''influxdb'')
        \<and> demo_fs (file_name demo_args) = Inr ten_lines)
   \<and> (\<exists>ms t. fst (main demo_fs failing_net 7 [] demo_args empty_world) = Returned
           \<and> console (snd (main demo_fs failing_net 7 [] demo_args empty_world)) =
               console empty_world @ (Stdout, Dividing) # ms @
                 [(Stdout, TotalRows 10), (Stdout, TotalRequestTime t), (Stdout, TotalWallTime 7)])
   \<and> get_endpoint ''http://h:9'' ''questdb'' = Inr ''http://h:9/write''
   \<and> fst (send_chunk failing_net [''a 1'', ''b 2''] ''http://h:9'' ''questdb'' empty_world) =
        Inr (length [''a 1'', ''b 2''],
             snd (failing_net (requests empty_world) ''http://h:9/write'' (join [NL] [''a 1'', ''b 2''] @ [NL])))"
proof -
  have h: "length ten_lines = 10 \<and> chunk_size demo_args = 3 \<and> 1 \<le> workers demo_args
        \<and> (backend demo_args = ''questdb'' \<or> backend demo_args = ''influxdb'')
        \<and> demo_fs (file_name demo_args) = Inr ten_lines"
    by (simp add: ten_lines_def demo_args_def demo_fs_def)
  have e: "get_endpoint ''http://h:9'' ''questdb'' = Inr ''http://h:9/write''"
    by (simp add: get_endpoint_def rstrip_def)
  note t = total_rows_sum_of_attempted_rows [of "[]" "''http://h:9''" "''questdb''" "''http://h:9/write''"
      failing_net "[''a 1'', ''b 2'']" empty_world ten_lines demo_args demo_fs 7 "[]"]
  note t2 = mp [OF conjunct1 [OF conjunct2 [OF t]] e]
  note t3 = mp [OF conjunct2 [OF conjunct2 [OF t]] h]
  show ?thesis by (intro conjI h t3 e t2)
qed

text \<open>
  C5, as stated, fails: the result of a send whose request raised an exception, or
  was answered with an error status, is the same pair (rows, duration) as the result
  of a successful send. It holds no failure status and no error detail.
\<close>

theorem failed_send_result_counterexample:
  "fst (send_chunk failing_net [''a 1''] ''http://h:9'' ''questdb'' empty_world) = Inr (1, 1)
   \<and> fst (send_chunk accepting_net [''a 1''] ''http://h:9'' ''questdb'' empty_world) = Inr (1, 1)
   \<and> fst (send_chunk rejecting_net [''a 1''] ''http://h:9'' ''questdb'' empty_world) = Inr (1, 1)"
  by (simp add: send_chunk_def get_endpoint_def rstrip_def post_def print_def
      failing_net_def accepting_net_def rejecting_net_def empty_world_def)

text \<open>
  C5, amended. When the request of a chunk raises an exception, \<open>send_chunk\<close> does not
  propagate it: it prints the exception and the duration to the standard error and
  returns the pair of the attempted row count and the duration. When the request is
  answered with an error status, it prints the status line, then the response text to
  the standard error, and returns the same kind of pair. The result holds no failure
  status and no error detail. Whatever the network does and however the workers are
  scheduled, a run (known backend, readable file, at least one worker) issues the
  request of every chunk exactly once, in some order, and returns after printing its
  report.
\<close>

theorem send_failure_contained:
  "(get_endpoint h b = Inr url \<and> net (requests w) url (join [NL] ls @ [NL]) = (Raised e, d) \<longrightarrow>
      send_chunk net ls h b w =
        (Inr (length ls, d),
         w\<lparr>requests := requests w @ [(url, join [NL] ls @ [NL])],
           console := console w @ [(Stderr, ExceptionSending e d)]\<rparr>))
   \<and> (get_endpoint h b = Inr url \<and> net (requests w) url (join [NL] ls @ [NL]) = (Responded r, d)
        \<and> \<not> ok r \<longrightarrow>
      send_chunk net ls h b w =
        (Inr (length ls, d),
         w\<lparr>requests := requests w @ [(url, join [NL] ls @ [NL])],
           console := console w @
             [(Stdout, SentChunk (length ls) (status_code r) d), (Stderr, ErrorText (resp_text r))]\<rparr>))
   \<and> ((backend a = ''questdb'' \<or> backend a = ''influxdb'') \<and> fs (file_name a) = Inr f
        \<and> 1 \<le> workers a \<longrightarrow>
      (\<exists>new ms t. main fs net wall_time sched a w =
         (Returned,
          w\<lparr>requests := requests w @ new,
            console := console w @ (Stdout, Dividing) # ms @
              [(Stdout, TotalRows (length f)), (Stdout, TotalRequestTime t),
               (Stdout, TotalWallTime wall_time)]\<rparr>)
         \<and> mset new = mset (map request_of (chunk_loop a f [] []))))"
proof -
  have a: "get_endpoint h b = Inr url \<and> net (requests w) url (join [NL] ls @ [NL]) = (Raised e, d) \<longrightarrow>
      send_chunk net ls h b w =
        (Inr (length ls, d),
         w\<lparr>requests := requests w @ [(url, join [NL] ls @ [NL])],
           console := console w @ [(Stderr, ExceptionSending e d)]\<rparr>)"
    by (simp add: send_chunk_valid chunk_report_def)
  have b: "get_endpoint h b = Inr url \<and> net (requests w) url (join [NL] ls @ [NL]) = (Responded r, d)
        \<and> \<not> ok r \<longrightarrow>
      send_chunk net ls h b w =
        (Inr (length ls, d),
         w\<lparr>requests := requests w @ [(url, join [NL] ls @ [NL])],
           console := console w @
             [(Stdout, SentChunk (length ls) (status_code r) d), (Stderr, ErrorText (resp_text r))]\<rparr>)"
    by (simp add: send_chunk_valid chunk_report_def)
  have c: "(backend a = ''questdb'' \<or> backend a = ''influxdb'') \<and> fs (file_name a) = Inr f
        \<and> 1 \<le> workers a \<longrightarrow>
      (\<exists>new ms t. main fs net wall_time sched a w =
         (Returned,
          w\<lparr>requests := requests w @ new,
            console := console w @ (Stdout, Dividing) # ms @
              [(Stdout, TotalRows (length f)), (Stdout, TotalRequestTime t),
               (Stdout, TotalWallTime wall_time)]\<rparr>)
         \<and> mset new = mset (map request_of (chunk_loop a f [] [])))"
  proof
    assume h: "(backend a = ''questdb'' \<or> backend a = ''influxdb'') \<and> fs (file_name a) = Inr f
        \<and> 1 \<le> workers a"
    then have k: "known_backend (backend a)" by (simp add: known_backend_iff)
    from h have f: "fs (file_name a) = Inr f" and p: "1 \<le> workers a" by simp_all
    show "\<exists>new ms t. main fs net wall_time sched a w =
         (Returned,
          w\<lparr>requests := requests w @ new,
            console := console w @ (Stdout, Dividing) # ms @
              [(Stdout, TotalRows (length f)), (Stdout, TotalRequestTime t),
               (Stdout, TotalWallTime wall_time)]\<rparr>)
         \<and> mset new = mset (map request_of (chunk_loop a f [] []))"
      by (rule main_returns [where a = a and fs = fs and f = f, OF k f p])
  qed
  show ?thesis by (rule conjI [OF a conjI [OF b c]])
qed

theorem send_failure_contained_witness:
  "(get_endpoint ''http://h:9'' ''questdb'' = Inr ''http://h:9/write''
     \<and> failing_net (requests empty_world) ''http://h:9/write'' (join [NL] [''a 1''] @ [NL]) =
         (Raised ''Connection refused'', 1))
   \<and> send_chunk failing_net [''a 1''] ''http://h:9'' ''questdb'' empty_world =
        (Inr (length [''a 1''], 1),
         empty_world\<lparr>requests := requests empty_world @ [(''http://h:9/write'', join [NL] [''a 1''] @ [NL])],
           console := console empty_world @ [(Stderr, ExceptionSending ''Connection refused'' 1)]\<rparr>)
   \<and> (get_endpoint ''http://h:9'' ''questdb'' = Inr ''http://h:9/write''
     \<and> rejecting_net (requests empty_world) ''http://h:9/write'' (join [NL] [''a 1''] @ [NL]) =
         (Responded \<lparr>status_code = 400, ok = False, resp_text = ''parse error''\<rparr>, 1)
     \<and> \<not> ok \<lparr>status_code = 400, ok = False, resp_text = ''parse error''\<rparr>)
   \<and> ((backend (demo_args\<lparr>workers := 3\<rparr>) = ''questdb''
        \<or> backend (demo_args\<lparr>workers := 3\<rparr>) = ''influxdb'')
     \<and> demo_fs (file_name (demo_args\<lparr>workers := 3\<rparr>)) = Inr ten_lines
     \<and> 1 \<le> workers (demo_args\<lparr>workers := 3\<rparr>))
   \<and> (\<exists>new ms t. main demo_fs failing_net 7 [2, 0, 1, 1] (demo_args\<lparr>workers := 3\<rparr>) empty_world =
         (Returned,
          empty_world\<lparr>requests := requests empty_world @ new,
            console := console empty_world @ (Stdout, Dividing) # ms @
              [(Stdout, TotalRows (length ten_lines)), (Stdout, TotalRequestTime t),
               (Stdout, TotalWallTime 7)]\<rparr>)
         \<and> mset new = mset (map request_of (chunk_loop (demo_args\<lparr>workers := 3\<rparr>) ten_lines [] [])))"
proof -
  have e: "get_endpoint ''http://h:9'' ''questdb'' = Inr ''http://h:9/write''"
    by (simp add: get_endpoint_def rstrip_def)
  have h1: "get_endpoint ''http://h:9'' ''questdb'' = Inr ''http://h:9/write''
     \<and> failing_net (requests empty_world) ''http://h:9/write'' (join [NL] [''a 1''] @ [NL]) =
         (Raised ''Connection refused'', 1)"
    using e by (simp add: failing_net_def)
  have h2: "get_endpoint ''http://h:9'' ''questdb'' = Inr ''http://h:9/write''
     \<and> rejecting_net (requests empty_world) ''http://h:9/write'' (join [NL] [''a 1''] @ [NL]) =
         (Responded \<lparr>status_code = 400, ok = False, resp_text = ''parse error''\<rparr>, 1)
     \<and> \<not> ok \<lparr>status_code = 400, ok = False, resp_text = ''parse error''\<rparr>"
    using e by (simp add: rejecting_net_def)
  have h3: "(backend (demo_args\<lparr>workers := 3\<rparr>) = ''questdb''
        \<or> backend (demo_args\<lparr>workers := 3\<rparr>) = ''influxdb'')
     \<and> demo_fs (file_name (demo_args\<lparr>workers := 3\<rparr>)) = Inr ten_lines
     \<and> 1 \<le> workers (demo_args\<lparr>workers := 3\<rparr>)"
    by (simp add: demo_args_def demo_fs_def)
  note t1 = send_failure_contained [where h = "''http://h:9''" and b = "''questdb''"
      and url = "''http://h:9/write''" and net = failing_net and w = empty_world and ls = "[''a 1'']"
      and e = "''Connection refused''" and d = 1 and a = "demo_args\<lparr>workers := 3\<rparr>" and fs = demo_fs
      and f = ten_lines and wall_time = 7 and sched = "[2, 0, 1, 1]"]
  note c1 = mp [OF conjunct1 [OF t1] h1]
  note c3 = mp [OF conjunct2 [OF conjunct2 [OF t1]] h3]
  show ?thesis by (intro conjI c1 c3 h1 h2 h3)
qed

text \<open>
  C4, as stated, fails: with a chunk size of 0 the run on the ten-line file is not
  rejected. It returns normally, after sending the ten lines as one chunk.
\<close>

theorem nonpositive_chunk_size_counterexample:
  "chunk_size (demo_args\<lparr>chunk_size := 0\<rparr>) \<le> 0
   \<and> fst (main demo_fs accepting_net 7 [] (demo_args\<lparr>chunk_size := 0\<rparr>) empty_world) = Returned
   \<and> map (\<lambda>c. length (fst c)) (chunk_loop (demo_args\<lparr>chunk_size := 0\<rparr>) ten_lines [] []) = [10]
   \<and> length (requests (snd (main demo_fs accepting_net 7 [] (demo_args\<lparr>chunk_size := 0\<rparr>) empty_world))) = 1"
proof -
  define a where "a = demo_args\<lparr>chunk_size := 0\<rparr>"
  have z: "chunk_size a \<le> 0" by (simp add: a_def)
  have c: "chunk_loop a ten_lines [] [] = [(map (prepare_line a) ten_lines, host a, backend a)]"
    using chunk_loop_nonpositive [OF z, of ten_lines "[]" "[]"] by (simp add: ten_lines_def)
  have l: "map (\<lambda>c. length (fst c)) (chunk_loop a ten_lines [] []) = [10]"
    unfolding c by (simp add: ten_lines_def)
  have k: "known_backend (backend a)" by (simp add: a_def demo_args_def known_backend_def)
  have f: "demo_fs (file_name a) = Inr ten_lines" by (simp add: a_def demo_args_def demo_fs_def)
  have p: "1 \<le> workers a" by (simp add: a_def demo_args_def)
  from main_returns [where a = a and fs = demo_fs and f = ten_lines and net = accepting_net
      and wall_time = 7 and sched = "[]" and w = empty_world, OF k f p]
  obtain new ms t where
    m: "main demo_fs accepting_net 7 [] a empty_world =
     (Returned,
      empty_world\<lparr>requests := requests empty_world @ new,
        console := console empty_world @ (Stdout, Dividing) # ms @
          [(Stdout, TotalRows (length ten_lines)), (Stdout, TotalRequestTime t), (Stdout, TotalWallTime 7)]\<rparr>)"
    and n: "mset new = mset (map request_of (chunk_loop a ten_lines [] []))"
    by blast
  from n have "length new = 1" unfolding c by (metis length_map mset_eq_length length_Cons list.size(3) One_nat_def)
  then have r: "length (requests (snd (main demo_fs accepting_net 7 [] a empty_world))) = 1"
    unfolding m by (simp add: empty_world_def)
  have e: "fst (main demo_fs accepting_net 7 [] a empty_world) = Returned"
    unfolding m by simp
  from z e l r show ?thesis unfolding a_def by (intro conjI)
qed

text \<open>
  C4, amended. With a chunk size \<open>N \<le> 0\<close> no configuration error is raised: the test of
  the chunk's length against \<open>N\<close> never holds, so all the lines of a file that has
  lines form one single chunk (a file without lines gives no chunk), and the run
  (known backend, readable file, at least one worker) sends that chunk in one request
  and returns normally.
\<close>

theorem nonpositive_chunk_size_single_chunk:
  assumes "chunk_size a \<le> 0"
  shows "chunk_loop a f [] [] = (if f = [] then [] else [(map (prepare_line a) f, host a, backend a)])
    \<and> ((backend a = ''questdb'' \<or> backend a = ''influxdb'') \<and> fs (file_name a) = Inr f
         \<and> 1 \<le> workers a \<longrightarrow>
        fst (main fs net wall_time sched a w) = Returned
        \<and> requests (snd (main fs net wall_time sched a w)) =
            requests w @ (if f = [] then [] else [request_of (map (prepare_line a) f, host a, backend a)]))"
proof -
  have l: "chunk_loop a f [] [] = (if f = [] then [] else [(map (prepare_line a) f, host a, backend a)])"
    using chunk_loop_nonpositive [OF assms, of f "[]" "[]"] by simp
  have m: "(backend a = ''questdb'' \<or> backend a = ''influxdb'') \<and> fs (file_name a) = Inr f
         \<and> 1 \<le> workers a \<longrightarrow>
        fst (main fs net wall_time sched a w) = Returned
        \<and> requests (snd (main fs net wall_time sched a w)) =
            requests w @ (if f = [] then [] else [request_of (map (prepare_line a) f, host a, backend a)])"
  proof
    assume h: "(backend a = ''questdb'' \<or> backend a = ''influxdb'') \<and> fs (file_name a) = Inr f
         \<and> 1 \<le> workers a"
    then have k: "known_backend (backend a)" by (simp add: known_backend_iff)
    from h have f: "fs (file_name a) = Inr f" and p: "1 \<le> workers a" by simp_all
    from main_returns [where a = a and fs = fs and f = f and net = net and wall_time = wall_time
        and sched = sched and w = w, OF k f p]
    obtain new ms t where
      m: "main fs net wall_time sched a w =
     (Returned,
      w\<lparr>requests := requests w @ new,
        console := console w @ (Stdout, Dividing) # ms @
          [(Stdout, TotalRows (length f)), (Stdout, TotalRequestTime t), (Stdout, TotalWallTime wall_time)]\<rparr>)"
      and n: "mset new = mset (map request_of (chunk_loop a f [] []))"
      by blast
    have "new = (if f = [] then [] else [request_of (map (prepare_line a) f, host a, backend a)])"
    proof (cases "f = []")
      case True
      with n l show ?thesis by simp
    next
      case False
      with n l have "mset new = mset [request_of (map (prepare_line a) f, host a, backend a)]"
        by simp
      with False show ?thesis by (simp add: mset_single_list)
    qed
    then show "fst (main fs net wall_time sched a w) = Returned
        \<and> requests (snd (main fs net wall_time sched a w)) =
            requests w @ (if f = [] then [] else [request_of (map (prepare_line a) f, host a, backend a)])"
      unfolding m by simp
  qed
  show ?thesis by (rule conjI [OF l m])
qed

theorem nonpositive_chunk_size_single_chunk_witness:
  "chunk_size (demo_args\<lparr>chunk_size := - 1\<rparr>) \<le> 0
   \<and> ((backend (demo_args\<lparr>chunk_size := - 1\<rparr>) = ''questdb''
         \<or> backend (demo_args\<lparr>chunk_size := - 1\<rparr>) = ''influxdb'')
       \<and> demo_fs (file_name (demo_args\<lparr>chunk_size := - 1\<rparr>)) = Inr ten_lines
       \<and> 1 \<le> workers (demo_args\<lparr>chunk_size := - 1\<rparr>))
   \<and> fst (main demo_fs failing_net 7 [] (demo_args\<lparr>chunk_size := - 1\<rparr>) empty_world) = Returned
   \<and> requests (snd (main demo_fs failing_net 7 [] (demo_args\<lparr>chunk_size := - 1\<rparr>) empty_world)) =
        requests empty_world @ (if ten_lines = [] then []
          else [request_of (map (prepare_line (demo_args\<lparr>chunk_size := - 1\<rparr>)) ten_lines,
                  host (demo_args\<lparr>chunk_size := - 1\<rparr>), backend (demo_args\<lparr>chunk_size := - 1\<rparr>))])"
proof -
  have h1: "chunk_size (demo_args\<lparr>chunk_size := - 1\<rparr>) \<le> 0" by simp
  have h2: "(backend (demo_args\<lparr>chunk_size := - 1\<rparr>) = ''questdb''
         \<or> backend (demo_args\<lparr>chunk_size := - 1\<rparr>) = ''influxdb'')
       \<and> demo_fs (file_name (demo_args\<lparr>chunk_size := - 1\<rparr>)) = Inr ten_lines
       \<and> 1 \<le> workers (demo_args\<lparr>chunk_size := - 1\<rparr>)"
    by (simp add: demo_args_def demo_fs_def)
  note t = nonpositive_chunk_size_single_chunk [OF h1, where f = ten_lines and fs = demo_fs
      and net = failing_net and wall_time = 7 and sched = "[]" and w = empty_world]
  note c = mp [OF conjunct2 [OF t] h2]
  show ?thesis by (intro conjI h1 h2 conjunct1 [OF c] conjunct2 [OF c])
qed

end
